theory Spec2Isabelle
  imports Main "HOL-Library.Word"
begin

unbundle bit_operations_syntax

section \<open>Domains cache (src/cache/domains\_cache.cpp)\<close>

text \<open>
  \<^verbatim>\<open>struct CacheEntry { std::string domain; std::string ip_address;
                      std::chrono::steady_clock::time_point expiration_time; };\<close>
  Instants of the steady clock are integers (ticks); the clock reading is passed to each
  operation as the argument \<open>now\<close>. The mutex only serialises the operations, so each
  operation is a function from the map to the map. In \<open>AddDomain\<close> the sum \<open>now + ttl\<close> is
  taken in the integers; the source adds the TTL, given in seconds, to a 64-bit count of
  clock ticks, and the two agree as long as that sum fits in 64 bits.
\<close>

record CacheEntry =
  ce_domain :: string
  ce_ip_address :: string
  ce_expiration_time :: int

type_synonym cache = "string \<rightharpoonup> CacheEntry"

definition AddDomain :: "int \<Rightarrow> cache \<Rightarrow> int \<Rightarrow> string \<Rightarrow> string \<Rightarrow> cache" where
  "AddDomain ttl cmap now dom_name ip =
     cmap(dom_name \<mapsto> \<lparr>ce_domain = dom_name, ce_ip_address = ip, ce_expiration_time = now + ttl\<rparr>)"

text \<open>
  \<open>GetDomain\<close> returns the boolean result, the value of the out-parameter \<open>ip_address\<close>
  (left as the caller passed it when nothing is found) and the map afterwards.
\<close>

definition GetDomain :: "cache \<Rightarrow> int \<Rightarrow> string \<Rightarrow> string \<Rightarrow> bool \<times> string \<times> cache" where
  "GetDomain cmap now dom_name ip_address =
     (case cmap dom_name of
        Some it \<Rightarrow>
          if now < ce_expiration_time it then (True, ce_ip_address it, cmap)
          else (False, ip_address, cmap(dom_name := None))
      | None \<Rightarrow> (False, ip_address, cmap))"

definition Cleanup :: "cache \<Rightarrow> int \<Rightarrow> cache" where
  "Cleanup cmap now =
     (\<lambda>k. case cmap k of
            Some it \<Rightarrow> if now \<ge> ce_expiration_time it then None else Some it
          | None \<Rightarrow> None)"

section \<open>SMTP reply classification (utils in smtp\_bruteforcer.cpp)\<close>

text \<open>
  \<open>std::isspace\<close> and \<open>std::isdigit\<close> in the C locale.
\<close>

definition isspace_c :: "char \<Rightarrow> bool" where
  "isspace_c c = (let n = (of_char c :: nat) in n = 32 \<or> (9 \<le> n \<and> n \<le> 13))"

definition isdigit_c :: "char \<Rightarrow> bool" where
  "isdigit_c c = (let n = (of_char c :: nat) in 48 \<le> n \<and> n \<le> 57)"

definition digit_val :: "char \<Rightarrow> int" where
  "digit_val c = int (of_char c) - 48"

definition digits_val :: "string \<Rightarrow> int" where
  "digits_val ds = foldl (\<lambda>acc c. acc * 10 + digit_val c) 0 ds"

text \<open>
  \<open>std::stoi(s)\<close> with base 10: leading white space is skipped, one optional sign is
  taken, then the longest run of decimal digits is converted; what follows the digits is
  ignored. \<open>None\<close> stands for the two exceptions it can throw: \<open>std::invalid_argument\<close>
  when there is no digit to convert, \<open>std::out_of_range\<close> when the value does not fit
  an \<open>int\<close>.
\<close>

definition stoi :: "string \<Rightarrow> int option" where
  "stoi s =
     (let s1 = dropWhile isspace_c s;
          neg = (case s1 of c # _ \<Rightarrow> c = CHR ''-'' | [] \<Rightarrow> False);
          s2 = (case s1 of c # r \<Rightarrow> if c = CHR ''-'' \<or> c = CHR ''+'' then r else s1 | [] \<Rightarrow> s1);
          ds = takeWhile isdigit_c s2;
          v = (if neg then - digits_val ds else digits_val ds)
      in if ds = [] then None
         else if v < - 2147483648 \<or> 2147483647 < v then None
         else Some v)"

definition GetResponseCode :: "string \<Rightarrow> int" where
  "GetResponseCode response =
     (if length response < 3 then 0
      else case stoi (take 3 response) of Some v \<Rightarrow> v | None \<Rightarrow> 0)"

definition IsSuccessResponse :: "string \<Rightarrow> bool" where
  "IsSuccessResponse response =
     (if length response < 3 then False
      else let code = GetResponseCode response in code \<ge> 200 \<and> code < 400)"

section \<open>SMTP connection task: reading and classifying a reply (smtp\_bruteforcer.cpp)\<close>

text \<open>
  The byte stream is an external collaborator. It is modelled by the script of what the
  peer does next: deliver bytes, close the connection in an orderly way (\<open>recv\<close>
  returns 0), or fail (\<open>SocketTask::Receive\<close> throws: the \<open>select\<close> timed out,
  \<open>recv\<close> or \<open>SSL_read\<close> reported an error). When the script is used up nothing more
  arrives and \<open>Receive\<close> times out. \<open>SocketException\<close> stands for what \<open>Receive\<close> throws
  (\<open>SocketException\<close> or \<open>SSLException\<close>); neither is an \<open>SMTPException\<close>.
\<close>

datatype recv_event = Data string | Closed | Failed

type_synonym stream = "recv_event list"

datatype smtp_exn = SocketException | SMTPException string

text \<open>
  \<open>Receive(buffer, n)\<close>: at most \<open>n\<close> bytes are taken; what does not fit stays in the
  socket for the next call.
\<close>

fun Receive :: "nat \<Rightarrow> stream \<Rightarrow> (smtp_exn + string) \<times> stream" where
  "Receive n [] = (Inl SocketException, [])"
| "Receive n (Failed # rest) = (Inl SocketException, rest)"
| "Receive n (Closed # rest) = (Inr [], rest)"
| "Receive n (Data s # rest) =
     (if length s \<le> n then (Inr s, rest) else (Inr (take n s), Data (drop n s) # rest))"

text \<open>
  \<^verbatim>\<open>buffer[bytes_read] = '\0'; response += buffer;\<close> appends the received bytes as a C
  string, that is up to the first NUL byte.
\<close>

definition c_str :: "string \<Rightarrow> string" where
  "c_str buf = takeWhile (\<lambda>c. c \<noteq> CHR 0x00) buf"

text \<open>The test "we have a complete response" of \<open>ReadResponse\<close> (lines 242 to 246).\<close>

definition reply_complete :: "string \<Rightarrow> bool" where
  "reply_complete response =
     (length response \<ge> 4 \<and> response ! 3 = CHR '' '' \<and>
      isdigit_c (response ! 0) \<and> isdigit_c (response ! 1) \<and> isdigit_c (response ! 2))"

fun event_size :: "recv_event \<Rightarrow> nat" where
  "event_size (Data s) = Suc (length s)"
| "event_size Closed = 1"
| "event_size Failed = 1"

definition stream_size :: "stream \<Rightarrow> nat" where
  "stream_size st = sum_list (map event_size st)"

lemma Receive_size:
  "Receive (Suc n) st = (Inr s, st') \<Longrightarrow> s \<noteq> [] \<Longrightarrow> stream_size st' < stream_size st"
  by (induction "Suc n" st rule: Receive.induct) (auto simp: stream_size_def split: if_splits)

text \<open>
  The \<open>while (true)\<close> loop of \<open>ReadResponse\<close>. The result is what the call does (throws,
  or returns \<open>false\<close> or \<open>true\<close>), the string \<open>response\<close> and the rest of the stream.
\<close>

function ReadResponse_loop :: "string \<Rightarrow> stream \<Rightarrow> (smtp_exn + bool) \<times> string \<times> stream" where
  "ReadResponse_loop response st =
     (case Receive 1023 st of
        (Inl e, st') \<Rightarrow> (Inl e, response, st')
      | (Inr buf, st') \<Rightarrow>
          if length buf \<le> 0 then (Inr False, response, st')
          else let response' = response @ c_str buf
               in if reply_complete response' then (Inr True, response', st')
                  else ReadResponse_loop response' st')"
  by pat_completeness auto
termination
proof (relation "measure (\<lambda>(response, st). stream_size st)")
  show "wf (measure (\<lambda>(response :: string, st). stream_size st))" by simp
next
  fix response :: string and st x1 x2 x2a and xa :: string
  assume "(x1, x2) = Receive 1023 st" "x1 = Inr x2a" "\<not> length x2a \<le> 0"
  then show "((xa, x2), response, st) \<in> measure (\<lambda>(response, st). stream_size st)"
    using Receive_size [of 1022 st x2a x2] by simp
qed

declare ReadResponse_loop.simps [simp del]

definition ReadResponse :: "stream \<Rightarrow> (smtp_exn + bool) \<times> string \<times> stream" where
  "ReadResponse st = ReadResponse_loop [] st"

record AuthResult =
  success :: bool
  error_message :: string
  response_code :: int
  username :: string
  password :: string

text \<open>
  \<open>ProcessResponse\<close> either throws or builds the \<open>AuthResult\<close> that it hands to the
  authentication callback; its return value is the field \<open>success\<close> of that record.
\<close>

definition ProcessResponse :: "string \<Rightarrow> string \<Rightarrow> stream \<Rightarrow> smtp_exn + (AuthResult \<times> stream)" where
  "ProcessResponse current_username current_password st =
     (case ReadResponse st of
        (Inl e, response, st') \<Rightarrow> Inl e
      | (Inr ok, response, st') \<Rightarrow>
          if \<not> ok then Inl (SMTPException ''Failed to read authentication response'')
          else Inr (\<lparr>success = IsSuccessResponse response,
                     error_message = response,
                     response_code = GetResponseCode response,
                     username = current_username,
                     password = current_password\<rparr>, st'))"

definition CRLF :: string where
  "CRLF = [CHR 0x0D, CHR 0x0A]"


section \<open>DNS message decoder (dns\_extractor.cpp)\<close>

text \<open>
  The buffer is the list of its bytes and the argument \<open>length\<close> of the source is the
  length of that list. The source reads \<open>buffer[i]\<close> through a raw pointer; where
  \<open>i\<close> is not below the length the read is outside the buffer (undefined behaviour in
  C++), which the model reports as \<open>OutOfBoundsRead i\<close> and stops. \<open>DNSParseError\<close> is
  the exception of the source with its message, and \<open>NoReturn\<close> stands for a loop that
  never exits.
\<close>

type_synonym u8 = "8 word"

datatype dns_error = DNSParseError string | OutOfBoundsRead nat | NoReturn

definition read_byte :: "u8 list \<Rightarrow> nat \<Rightarrow> dns_error + u8" where
  "read_byte buffer i = (if i < length buffer then Inr (buffer ! i) else Inl (OutOfBoundsRead i))"

text \<open>The label bytes are appended to the \<open>std::string\<close> unchanged.\<close>

definition byte_char :: "u8 \<Rightarrow> char" where
  "byte_char b = char_of (unat b)"

text \<open>
  \<^verbatim>\<open>uint16_t pointerOffset = ((labelLength & 0x3F) << 8) | buffer[offset + 1];\<close>
\<close>

definition pointerOffset_of :: "u8 \<Rightarrow> u8 \<Rightarrow> 16 word" where
  "pointerOffset_of labelLength b1 = push_bit 8 (ucast (labelLength AND 0x3F)) OR ucast b1"

definition maxJumps :: nat where
  "maxJumps = 128"

text \<open>
  The \<open>while\<close> loop of \<open>ExtractDomainName\<close> over its local variables \<open>domain\<close> (here
  \<open>dname\<close>), \<open>offset\<close>, \<open>jumps\<close>, \<open>originalOffset\<close> and \<open>jumped\<close>. The loop exits by
  returning the name with the caller's new offset or by throwing. The last argument
  \<open>followed\<close> is not a variable of the source: it counts how often line 135
  (\<open>offset = pointerOffset\<close>) has run and is returned beside the result. \<open>None\<close> would
  mean that the loop runs forever.
\<close>

partial_function (option) name_loop ::
  "u8 list \<Rightarrow> string \<Rightarrow> nat \<Rightarrow> nat \<Rightarrow> nat \<Rightarrow> bool \<Rightarrow> nat \<Rightarrow> ((dns_error + string \<times> nat) \<times> nat) option"
where
  "name_loop buffer dname offset jumps originalOffset jumped followed =
     (case read_byte buffer offset of
        Inl e \<Rightarrow> Some (Inl e, followed)
      | Inr labelLength \<Rightarrow>
          if labelLength = 0 then
            Some (Inr (dname, if \<not> jumped then offset + 1 else originalOffset), followed)
          else if labelLength AND 0xC0 = 0xC0 then
            if offset + 2 > length buffer then
              Some (Inl (DNSParseError ''Invalid compression pointer''), followed)
            else if jumps > maxJumps then
              Some (Inl (DNSParseError ''Too many compression jumps''), followed)
            else
              let pointerOffset = pointerOffset_of labelLength (buffer ! (offset + 1))
              in if unat pointerOffset \<ge> length buffer then
                   Some (Inl (DNSParseError ''Invalid compression pointer offset''), followed)
                 else
                   name_loop buffer dname (unat pointerOffset) (jumps + 1)
                     (if \<not> jumped then originalOffset + 2 else originalOffset) True
                     (followed + 1)
          else if offset + 1 + unat labelLength > length buffer then
            Some (Inl (DNSParseError ''Label length exceeds buffer''), followed)
          else
            let dname' = (if dname \<noteq> [] then dname @ ''.'' else dname)
                           @ map byte_char (take (unat labelLength) (drop (offset + 1) buffer));
                offset' = offset + (unat labelLength + 1)
            in name_loop buffer dname' offset' jumps
                 (if \<not> jumped then offset' else originalOffset) jumped followed)"

declare name_loop.simps [code]

definition ExtractDomainName :: "u8 list \<Rightarrow> nat \<Rightarrow> dns_error + string \<times> nat" where
  "ExtractDomainName buffer offset =
     (case name_loop buffer [] offset 0 offset False 0 of
        Some (r, followed) \<Rightarrow> r
      | None \<Rightarrow> Inl NoReturn)"

text \<open>Sequencing: an exception or an out-of-bounds read ends the computation.\<close>

definition bind_r :: "'e + 'a \<Rightarrow> ('a \<Rightarrow> 'e + 'b) \<Rightarrow> 'e + 'b" where
  "bind_r m f = (case m of Inl e \<Rightarrow> Inl e | Inr x \<Rightarrow> f x)"

text \<open>\<open>ReadUInt16\<close> and \<open>ReadUInt32\<close> make no bounds check.\<close>

definition ReadUInt16 :: "u8 list \<Rightarrow> nat \<Rightarrow> dns_error + (16 word \<times> nat)" where
  "ReadUInt16 buffer offset =
     bind_r (read_byte buffer offset) (\<lambda>b0.
     bind_r (read_byte buffer (offset + 1)) (\<lambda>b1.
       Inr (push_bit 8 (ucast b0) OR ucast b1, offset + 2)))"

definition ReadUInt32 :: "u8 list \<Rightarrow> nat \<Rightarrow> dns_error + (32 word \<times> nat)" where
  "ReadUInt32 buffer offset =
     bind_r (read_byte buffer offset) (\<lambda>b0.
     bind_r (read_byte buffer (offset + 1)) (\<lambda>b1.
     bind_r (read_byte buffer (offset + 2)) (\<lambda>b2.
     bind_r (read_byte buffer (offset + 3)) (\<lambda>b3.
       Inr (push_bit 24 (ucast b0) OR push_bit 16 (ucast b1) OR push_bit 8 (ucast b2) OR ucast b3,
            offset + 4)))))"

record DNSHeader =
  hdr_id :: "16 word"
  hdr_flags :: "16 word"
  qdcount :: "16 word"
  ancount :: "16 word"
  nscount :: "16 word"
  arcount :: "16 word"

record DNSQuestion =
  qname :: string
  qtype :: "16 word"
  qclass :: "16 word"

record DNSResourceRecord =
  rr_name :: string
  rr_type :: "16 word"
  rr_rclass :: "16 word"
  rr_ttl :: "32 word"
  rr_rdlength :: "16 word"
  rr_rdata :: "u8 list"

record DNSMessage =
  msg_header :: DNSHeader
  questions :: "DNSQuestion list"
  answers :: "DNSResourceRecord list"
  authorities :: "DNSResourceRecord list"
  additionals :: "DNSResourceRecord list"

definition sizeof_DNSHeader :: nat where
  "sizeof_DNSHeader = 12"

definition ParseHeader :: "u8 list \<Rightarrow> dns_error + DNSHeader option" where
  "ParseHeader buffer =
     (if length buffer < sizeof_DNSHeader then Inr None
      else
        bind_r (ReadUInt16 buffer 0) (\<lambda>(v_id, o1).
        bind_r (ReadUInt16 buffer o1) (\<lambda>(v_flags, o2).
        bind_r (ReadUInt16 buffer o2) (\<lambda>(v_qd, o3).
        bind_r (ReadUInt16 buffer o3) (\<lambda>(v_an, o4).
        bind_r (ReadUInt16 buffer o4) (\<lambda>(v_ns, o5).
        bind_r (ReadUInt16 buffer o5) (\<lambda>(v_ar, o6).
          Inr (Some \<lparr>hdr_id = v_id, hdr_flags = v_flags, qdcount = v_qd,
                      ancount = v_an, nscount = v_ns, arcount = v_ar\<rparr>))))))))"

text \<open>
  \<^verbatim>\<open>try { ...; return true; } catch (const DNSParseError&) { return false; }\<close>:
  \<open>Inr None\<close> is the result \<open>false\<close>, \<open>Inr (Some x)\<close> the result \<open>true\<close> with the values
  written through the reference parameters.
\<close>

definition catch_DNSParseError :: "dns_error + 'a \<Rightarrow> dns_error + 'a option" where
  "catch_DNSParseError r =
     (case r of
        Inl (DNSParseError msg) \<Rightarrow> Inr None
      | Inl e \<Rightarrow> Inl e
      | Inr x \<Rightarrow> Inr (Some x))"

definition ParseQuestion :: "u8 list \<Rightarrow> nat \<Rightarrow> dns_error + (DNSQuestion \<times> nat) option" where
  "ParseQuestion buffer offset =
     catch_DNSParseError
       (bind_r (ExtractDomainName buffer offset) (\<lambda>(v_qname, o1).
        bind_r (ReadUInt16 buffer o1) (\<lambda>(v_qtype, o2).
        bind_r (ReadUInt16 buffer o2) (\<lambda>(v_qclass, o3).
          Inr (\<lparr>qname = v_qname, qtype = v_qtype, qclass = v_qclass\<rparr>, o3)))))"

definition ParseResourceRecord ::
  "u8 list \<Rightarrow> nat \<Rightarrow> dns_error + (DNSResourceRecord \<times> nat) option" where
  "ParseResourceRecord buffer offset =
     catch_DNSParseError
       (bind_r (ExtractDomainName buffer offset) (\<lambda>(v_name, o1).
        bind_r (ReadUInt16 buffer o1) (\<lambda>(v_type, o2).
        bind_r (ReadUInt16 buffer o2) (\<lambda>(v_rclass, o3).
        bind_r (ReadUInt32 buffer o3) (\<lambda>(v_ttl, o4).
        bind_r (ReadUInt16 buffer o4) (\<lambda>(v_rdlength, o5).
          if o5 + unat v_rdlength > length buffer
          then Inl (DNSParseError ''Buffer too small for RDATA'')
          else Inr (\<lparr>rr_name = v_name, rr_type = v_type, rr_rclass = v_rclass, rr_ttl = v_ttl,
                     rr_rdlength = v_rdlength,
                     rr_rdata = take (unat v_rdlength) (drop o5 buffer)\<rparr>,
                    o5 + unat v_rdlength)))))))"

text \<open>Sequencing for the \<open>bool\<close> functions: \<open>false\<close> makes the caller return \<open>false\<close>.\<close>

definition bind_b :: "'e + 'a option \<Rightarrow> ('a \<Rightarrow> 'e + 'b option) \<Rightarrow> 'e + 'b option" where
  "bind_b m f = (case m of Inl e \<Rightarrow> Inl e | Inr None \<Rightarrow> Inr None | Inr (Some x) \<Rightarrow> f x)"

text \<open>
  The four \<open>for\<close> loops of \<open>ParseMessage\<close>; the second argument is the number of
  iterations left.
\<close>

fun parse_questions ::
  "u8 list \<Rightarrow> nat \<Rightarrow> nat \<Rightarrow> DNSQuestion list \<Rightarrow> dns_error + (DNSQuestion list \<times> nat) option" where
  "parse_questions buffer 0 offset qs = Inr (Some (qs, offset))"
| "parse_questions buffer (Suc n) offset qs =
     bind_b (ParseQuestion buffer offset) (\<lambda>(question, offset').
       parse_questions buffer n offset' (qs @ [question]))"

fun parse_records ::
  "u8 list \<Rightarrow> nat \<Rightarrow> nat \<Rightarrow> DNSResourceRecord list
   \<Rightarrow> dns_error + (DNSResourceRecord list \<times> nat) option" where
  "parse_records buffer 0 offset rs = Inr (Some (rs, offset))"
| "parse_records buffer (Suc n) offset rs =
     bind_b (ParseResourceRecord buffer offset) (\<lambda>(rr, offset').
       parse_records buffer n offset' (rs @ [rr]))"

definition ParseMessage :: "u8 list \<Rightarrow> dns_error + DNSMessage option" where
  "ParseMessage buffer =
     (if length buffer < sizeof_DNSHeader
      then Inl (DNSParseError ''Buffer too small for DNS header'')
      else
        bind_b (ParseHeader buffer) (\<lambda>header.
        bind_b (parse_questions buffer (unat (qdcount header)) sizeof_DNSHeader []) (\<lambda>(qs, o1).
        bind_b (parse_records buffer (unat (ancount header)) o1 []) (\<lambda>(an, o2).
        bind_b (parse_records buffer (unat (nscount header)) o2 []) (\<lambda>(ns, o3).
        bind_b (parse_records buffer (unat (arcount header)) o3 []) (\<lambda>(ar, o4).
          Inr (Some \<lparr>msg_header = header, questions = qs, answers = an,
                      authorities = ns, additionals = ar\<rparr>)))))))"

section \<open>SMTP prober orchestrator (smtp\_bruteforcer.cpp)\<close>

record BruteForceParams =
  usernames :: "string list"
  passwords :: "string list"
  max_concurrent_connections :: nat
  stop_on_success :: bool

text \<open>
  The members of \<open>SMTPBruteForcer\<close> that the workers share. \<open>probed\<close> is not a member of
  the class: it logs, in the order of the draws, the credential pairs for which a worker
  went on to construct and run a connection task.
\<close>

record forcer_state =
  current_user_index :: nat
  current_pass_index :: nat
  stop_requested :: bool
  attempts_count :: nat
  successful_auths :: "AuthResult list"
  probed :: "(string \<times> string) list"

text \<open>\<open>std::vector::operator[]\<close> with an index that is not below the size.\<close>

datatype forcer_error = VectorIndexOutOfRange

definition GetNextCredentials ::
  "BruteForceParams \<Rightarrow> forcer_state \<Rightarrow> forcer_error + ((string \<times> string) \<times> forcer_state)" where
  "GetNextCredentials params st =
     (if current_user_index st \<ge> length (usernames params) then Inr (('''', ''''), st)
      else if current_pass_index st \<ge> length (passwords params) then Inl VectorIndexOutOfRange
      else
        let user = usernames params ! current_user_index st;
            pass = passwords params ! current_pass_index st;
            st1 = st\<lparr>current_pass_index := current_pass_index st + 1\<rparr>
        in if current_pass_index st1 \<ge> length (passwords params)
           then Inr ((user, pass), st1\<lparr>current_pass_index := 0,
                                         current_user_index := current_user_index st1 + 1\<rparr>)
           else Inr ((user, pass), st1))"

definition ProcessResult :: "BruteForceParams \<Rightarrow> forcer_state \<Rightarrow> AuthResult \<Rightarrow> forcer_state" where
  "ProcessResult params st result =
     (if success result
      then let st1 = st\<lparr>successful_auths := successful_auths st @ [result]\<rparr>
           in if stop_on_success params then st1\<lparr>stop_requested := True\<rparr> else st1
      else st)"

text \<open>
  One pass through the loop of \<open>WorkerThread\<close>. The connection task is an external
  collaborator: \<open>task\<close> gives, for an attempt, the \<open>AuthResult\<close> that the task hands to
  its callback, if it calls it. The boolean says whether the worker goes round the loop
  again or leaves it. An exception that leaves \<open>Initialize\<close> or \<open>Execute\<close> is not caught
  in \<open>WorkerThread\<close> and ends the process; the passes modelled are those in which the task
  returns.
\<close>

definition worker_iteration ::
  "(string \<times> string \<Rightarrow> AuthResult option) \<Rightarrow> BruteForceParams \<Rightarrow> forcer_state
   \<Rightarrow> forcer_error + (bool \<times> forcer_state)" where
  "worker_iteration task params st =
     (if stop_requested st then Inr (False, st)
      else case GetNextCredentials params st of
             Inl e \<Rightarrow> Inl e
           | Inr ((user, pass), st1) \<Rightarrow>
               if user = [] \<and> pass = [] then Inr (False, st1)
               else
                 let st2 = st1\<lparr>probed := probed st1 @ [(user, pass)]\<rparr>;
                     st3 = (case task (user, pass) of
                              None \<Rightarrow> st2
                            | Some result \<Rightarrow> ProcessResult params st2 result)
                 in Inr (True, st3\<lparr>attempts_count := attempts_count st3 + 1\<rparr>))"

text \<open>
  The task as \<open>WorkerThread\<close> runs it: \<open>Execute\<close> is called once on a task in state
  \<open>INIT\<close>, which makes the connection step (\<open>HandleConnect\<close>) and returns; the
  authentication callback, called in \<open>ProcessResponse\<close> only, is not reached.
\<close>

definition Execute_once :: "string \<times> string \<Rightarrow> AuthResult option" where
  "Execute_once credentials = None"

text \<open>
  The workers run in parallel; the draws are serialised by \<open>credentials_mutex_\<close>. A
  schedule names, step by step, the worker that makes its next pass through the loop;
  \<open>ws\<close> holds for each worker whether it is still in its loop. A pass is one step of the
  run: between the draw and the end of the pass a worker touches the shared state only
  in \<open>ProcessResult\<close> and in the attempt counter, so the order of the draws is the order
  of the passes. A step scheduled for a worker that has left its loop does nothing.
\<close>

fun run_schedule ::
  "(string \<times> string \<Rightarrow> AuthResult option) \<Rightarrow> BruteForceParams \<Rightarrow> nat list
   \<Rightarrow> bool list \<times> forcer_state \<Rightarrow> forcer_error + (bool list \<times> forcer_state)" where
  "run_schedule task params [] (ws, st) = Inr (ws, st)"
| "run_schedule task params (w # sched) (ws, st) =
     (if w < length ws \<and> ws ! w
      then case worker_iteration task params st of
             Inl e \<Rightarrow> Inl e
           | Inr (again, st') \<Rightarrow> run_schedule task params sched (ws[w := again], st')
      else run_schedule task params sched (ws, st))"

text \<open>The state in which \<open>Start\<close> leaves a new orchestrator, and its workers.\<close>

definition Start :: "BruteForceParams \<Rightarrow> bool list \<times> forcer_state" where
  "Start params =
     (replicate (max_concurrent_connections params) True,
      \<lparr>current_user_index = 0, current_pass_index = 0, stop_requested = False,
       attempts_count = 0, successful_auths = [], probed = []\<rparr>)"

text \<open>The results of the next \<open>n\<close> calls of \<open>GetNextCredentials\<close>.\<close>

fun draw_n ::
  "BruteForceParams \<Rightarrow> nat \<Rightarrow> forcer_state
   \<Rightarrow> forcer_error + ((string \<times> string) list \<times> forcer_state)" where
  "draw_n params 0 st = Inr ([], st)"
| "draw_n params (Suc n) st =
     (case GetNextCredentials params st of
        Inl e \<Rightarrow> Inl e
      | Inr (c, st') \<Rightarrow>
          (case draw_n params n st' of
             Inl e \<Rightarrow> Inl e
           | Inr (cs, st'') \<Rightarrow> Inr (c # cs, st'')))"

text \<open>
  The pairs still to be handed out in a state: the rest of the current user's row, then
  the rows of the later users.
\<close>

definition remaining :: "BruteForceParams \<Rightarrow> forcer_state \<Rightarrow> (string \<times> string) list" where
  "remaining params st =
     (if current_user_index st \<ge> length (usernames params) then []
      else map (Pair (usernames params ! current_user_index st))
             (drop (current_pass_index st) (passwords params))
           @ List.product (drop (Suc (current_user_index st)) (usernames params))
               (passwords params))"

text \<open>
  The invariant of a run: what has been probed, followed by what remains, is the product;
  and as long as no stop is requested, a worker has left its loop only when nothing remains.
\<close>

definition run_inv :: "BruteForceParams \<Rightarrow> bool list \<Rightarrow> forcer_state \<Rightarrow> bool" where
  "run_inv params ws st =
     (current_pass_index st < length (passwords params)
      \<and> probed st @ remaining params st = List.product (usernames params) (passwords params)
      \<and> (if False \<in> set ws \<and> \<not> stop_requested st then remaining params st = [] else True))"

section \<open>Base64 (src/utils/base64.h and base64.cpp)\<close>

text \<open>
  A byte, whether \<open>char\<close> or \<open>uint8_t\<close>, is a \<open>char\<close>; its value is \<open>of_char\<close>. The 32-bit
  unsigned intermediate values are natural numbers: they are built from at most four
  bytes shifted by at most 18 bits and stay below \<open>2 ^ 32\<close>.
\<close>

definition encoding_table :: string where
  "encoding_table = ''ABCDEFGHIJKLMNOPQRSTUVWXYZabcdefghijklmnopqrstuvwxyz0123456789+/''"

text \<open>
  The table that \<open>InitDecodingTable\<close> builds: every entry \<open>0xFF\<close>, then the 64 entries of
  the alphabet set to their positions.
\<close>

definition decoding_table :: "char \<Rightarrow> nat" where
  "decoding_table = fold (\<lambda>i tbl. tbl(encoding_table ! i := i)) [0..<64] (\<lambda>c. 0xFF)"

text \<open>The \<open>while (i < length)\<close> loop of \<open>Encode\<close>; \<open>input[i++]\<close> advances \<open>i\<close>.\<close>

function Encode_loop :: "string \<Rightarrow> nat \<Rightarrow> string \<Rightarrow> string" where
  "Encode_loop input i output =
     (if i < length input then
        let (octet_a, i1) = (if i < length input then (of_char (input ! i), i + 1) else (0, i));
            (octet_b, i2) = (if i1 < length input then (of_char (input ! i1), i1 + 1) else (0, i1));
            (octet_c, i3) = (if i2 < length input then (of_char (input ! i2), i2 + 1) else (0, i2));
            triple = (push_bit 16 octet_a + push_bit 8 octet_b + octet_c :: nat)
        in Encode_loop input i3
             (output @ [encoding_table ! (drop_bit 18 triple AND 0x3F),
                        encoding_table ! (drop_bit 12 triple AND 0x3F),
                        encoding_table ! (drop_bit 6 triple AND 0x3F),
                        encoding_table ! (triple AND 0x3F)])
      else output)"
  by pat_completeness auto
termination
  by (relation "measure (\<lambda>(input, i, output). length input - i)") (auto split: if_splits)

declare Encode_loop.simps [simp del]

definition Encode :: "string \<Rightarrow> string" where
  "Encode input =
     (if length input = 0 then []
      else
        let output_length = 4 * ((length input + 2) div 3);
            output = Encode_loop input 0 [];
            padding = 3 - (length input mod 3)
        in if padding < 3
           then let output1 = output[output_length - 1 := CHR ''='']
                in if padding = 2 then output1[output_length - 2 := CHR ''=''] else output1
           else output)"

text \<open>The \<open>for\<close> loop of \<open>IsValid\<close> over the position \<open>i\<close> and the counter \<open>padding\<close>.\<close>

function IsValid_loop :: "string \<Rightarrow> nat \<Rightarrow> nat \<Rightarrow> bool" where
  "IsValid_loop input i padding =
     (if i < length input then
        let c = input ! i
        in if c = CHR ''='' then
             if padding + 1 > 2 \<or> i < length input - 2 then False
             else IsValid_loop input (i + 1) (padding + 1)
           else if padding > 0 then False
           else if \<not> isspace_c c \<and> decoding_table c = 0xFF then False
           else IsValid_loop input (i + 1) padding
      else True)"
  by pat_completeness auto
termination
  by (relation "measure (\<lambda>(input, i, padding). length input - i)") auto

declare IsValid_loop.simps [simp del]

definition IsValid :: "string \<Rightarrow> bool" where
  "IsValid input =
     (if input = [] then True
      else if length input mod 4 \<noteq> 0 then False
      else IsValid_loop input 0 0)"

datatype base64_error = Base64Error string | StringIndexOutOfRange nat | LengthError

text \<open>
  \<open>std::string::operator[]\<close>: the position \<open>size()\<close> holds the terminating NUL, a position
  behind it is outside the string.
\<close>

definition string_at :: "string \<Rightarrow> nat \<Rightarrow> base64_error + char" where
  "string_at s i =
     (if i < length s then Inr (s ! i)
      else if i = length s then Inr (CHR 0x00)
      else Inl (StringIndexOutOfRange i))"

text \<open>\<^verbatim>\<open>input[i] == '=' ? 0 : decoding_table[static_cast<unsigned char>(input[i])]\<close>\<close>

definition sextet_of :: "char \<Rightarrow> nat" where
  "sextet_of c = (if c = CHR ''='' then 0 else decoding_table c)"

text \<open>\<^verbatim>\<open>while (i < input.length() && std::isspace(input[i])) i++;\<close>\<close>

function skip_space :: "string \<Rightarrow> nat \<Rightarrow> nat" where
  "skip_space input i =
     (if i < length input \<and> isspace_c (input ! i) then skip_space input (i + 1) else i)"
  by pat_completeness auto
termination
  by (relation "measure (\<lambda>(input, i). length input - i)") auto

declare skip_space.simps [simp del]

lemma skip_space_ge: "i \<le> skip_space input i"
  by (induction input i rule: skip_space.induct) (subst skip_space.simps, auto)

text \<open>
  \<^verbatim>\<open>if (output.size() < output.capacity()) output.push_back(x);\<close> The capacity is what
  \<open>reserve\<close> was asked for: \<open>reserve(n)\<close> on an empty vector allocates room for exactly
  \<open>n\<close> elements in the standard libraries in use, and \<open>push_back\<close> below the capacity
  does not reallocate.
\<close>

definition push_back_below :: "nat \<Rightarrow> string \<Rightarrow> char \<Rightarrow> string" where
  "push_back_below capacity output x = (if length output < capacity then output @ [x] else output)"

text \<open>
  The outer \<open>while\<close> loop of \<open>DecodeBytes\<close>; \<open>capacity\<close> is the capacity of \<open>output\<close>.
\<close>

function DecodeBytes_loop :: "string \<Rightarrow> nat \<Rightarrow> nat \<Rightarrow> string \<Rightarrow> base64_error + string" where
  "DecodeBytes_loop input capacity i output =
     (if i < length input then
        let j = skip_space input i
        in if j = length input then Inr output
           else
             case string_at input j of Inl e \<Rightarrow> Inl e | Inr c_a \<Rightarrow>
             case string_at input (j + 1) of Inl e \<Rightarrow> Inl e | Inr c_b \<Rightarrow>
             case string_at input (j + 2) of Inl e \<Rightarrow> Inl e | Inr c_c \<Rightarrow>
             case string_at input (j + 3) of Inl e \<Rightarrow> Inl e | Inr c_d \<Rightarrow>
               let triple = (push_bit 18 (sextet_of c_a) + push_bit 12 (sextet_of c_b)
                             + push_bit 6 (sextet_of c_c) + sextet_of c_d :: nat);
                   output1 = push_back_below capacity output (char_of (drop_bit 16 triple AND 0xFF));
                   output2 = push_back_below capacity output1 (char_of (drop_bit 8 triple AND 0xFF));
                   output3 = push_back_below capacity output2 (char_of (triple AND 0xFF))
               in DecodeBytes_loop input capacity (j + 4) output3
      else Inr output)"
  by pat_completeness auto
termination
  apply (relation "measure (\<lambda>(input, capacity, i, output). (length input + 4) - i)")
   apply simp
  subgoal for input capacity i out j
    using skip_space_ge [of i input] by auto
  done

declare DecodeBytes_loop.simps [simp del]

text \<open>
  \<open>((input.length() / 4) * 3) - padding\<close> is computed in \<open>size_t\<close>; were it to wrap around,
  \<open>reserve\<close> would throw \<open>std::length_error\<close>.
\<close>

definition DecodeBytes :: "string \<Rightarrow> base64_error + string" where
  "DecodeBytes input =
     (if \<not> IsValid input then Inl (Base64Error ''Invalid base64 string'')
      else
        let padding0 = (0 :: nat);
            padding1 = (if input \<noteq> [] \<and> input ! (length input - 1) = CHR ''='' then padding0 + 1
                        else padding0);
            padding = (if input \<noteq> [] \<and> length input > 1 \<and> input ! (length input - 2) = CHR ''=''
                       then padding1 + 1 else padding1)
        in if (length input div 4) * 3 < padding then Inl LengthError
           else DecodeBytes_loop input ((length input div 4) * 3 - padding) 0 [])"

definition Decode :: "string \<Rightarrow> base64_error + string" where
  "Decode input = DecodeBytes input"

text \<open>
  For the proofs: the 24-bit value of three bytes, the four characters that \<open>Encode\<close>
  emits for such a value, and the value that \<open>DecodeBytes\<close> rebuilds from four
  characters.
\<close>

definition triple_of :: "nat \<Rightarrow> nat \<Rightarrow> nat \<Rightarrow> nat" where
  "triple_of a b c = push_bit 16 a + push_bit 8 b + c"

definition enc4 :: "nat \<Rightarrow> string" where
  "enc4 triple = [encoding_table ! (drop_bit 18 triple AND 0x3F),
                  encoding_table ! (drop_bit 12 triple AND 0x3F),
                  encoding_table ! (drop_bit 6 triple AND 0x3F),
                  encoding_table ! (triple AND 0x3F)]"

definition decode_triple :: "char \<Rightarrow> char \<Rightarrow> char \<Rightarrow> char \<Rightarrow> nat" where
  "decode_triple c1 c2 c3 c4 =
     push_bit 18 (sextet_of c1) + push_bit 12 (sextet_of c2) + push_bit 6 (sextet_of c3)
     + sextet_of c4"

text \<open>
  \<open>enc_all\<close> is the output of the loop of \<open>Encode\<close>, group by group, before the padding is
  written. \<open>base64_padded\<close> is Base64 as it is usually defined: three bytes give four
  characters, a final group of one or two bytes gives two or three characters followed by
  \<open>==\<close> or \<open>=\<close>.
\<close>

fun enc_all :: "string \<Rightarrow> string" where
  "enc_all [] = []"
| "enc_all [a] = enc4 (triple_of (of_char a) 0 0)"
| "enc_all [a, b] = enc4 (triple_of (of_char a) (of_char b) 0)"
| "enc_all (a # b # c # rest) = enc4 (triple_of (of_char a) (of_char b) (of_char c)) @ enc_all rest"

fun base64_padded :: "string \<Rightarrow> string" where
  "base64_padded [] = []"
| "base64_padded [a] = take 2 (enc4 (triple_of (of_char a) 0 0)) @ ''==''"
| "base64_padded [a, b] = take 3 (enc4 (triple_of (of_char a) (of_char b) 0)) @ ''=''"
| "base64_padded (a # b # c # rest) =
     enc4 (triple_of (of_char a) (of_char b) (of_char c)) @ base64_padded rest"

section \<open>Properties of the cache\<close>

lemma GetDomain_hit:
  "cmap k = Some e \<Longrightarrow> now < ce_expiration_time e \<Longrightarrow>
   GetDomain cmap now k ip0 = (True, ce_ip_address e, cmap)"
  by (simp add: GetDomain_def)

lemma GetDomain_expired:
  "cmap k = Some e \<Longrightarrow> \<not> now < ce_expiration_time e \<Longrightarrow>
   GetDomain cmap now k ip0 = (False, ip0, cmap(k := None))"
  by (simp add: GetDomain_def)

lemma GetDomain_absent:
  "cmap k = None \<Longrightarrow> GetDomain cmap now k ip0 = (False, ip0, cmap)"
  by (simp add: GetDomain_def)

lemma dom_erase_psubset: "m k = Some e \<Longrightarrow> dom (m(k := None)) \<subset> dom m"
  by auto

lemma card_dom_erase:
  assumes "m k = Some e" and "finite (dom m)"
  shows "card (dom (m(k := None))) < card (dom m)"
  using assms by (intro psubset_card_mono dom_erase_psubset)

text \<open>
  Claim C5. A lookup reports success exactly when the key has an entry whose expiry
  lies after the clock reading, and then hands back the stored address and leaves the map
  alone. A lookup that meets an entry whose expiry has passed reports absence, leaves the
  out-parameter untouched and erases that entry: the key set becomes a proper subset of
  what it was, so a finite map has strictly fewer entries.
\<close>

theorem GetDomain_lookup_iff_fresh:
  "(fst (GetDomain cmap now k ip0) \<longleftrightarrow>
      (\<exists>e. cmap k = Some e \<and> now < ce_expiration_time e))
   \<and> (\<forall>e. cmap k = Some e \<and> now < ce_expiration_time e \<longrightarrow>
         GetDomain cmap now k ip0 = (True, ce_ip_address e, cmap))
   \<and> (\<forall>e. cmap k = Some e \<and> \<not> now < ce_expiration_time e \<longrightarrow>
         fst (GetDomain cmap now k ip0) = False
         \<and> fst (snd (GetDomain cmap now k ip0)) = ip0
         \<and> snd (snd (GetDomain cmap now k ip0)) k = None
         \<and> dom (snd (snd (GetDomain cmap now k ip0))) = dom cmap - {k}
         \<and> dom (snd (snd (GetDomain cmap now k ip0))) \<subset> dom cmap
         \<and> (finite (dom cmap) \<longrightarrow>
              card (dom (snd (snd (GetDomain cmap now k ip0)))) < card (dom cmap)))"
proof (intro conjI allI impI)
  show "fst (GetDomain cmap now k ip0) \<longleftrightarrow>
      (\<exists>e. cmap k = Some e \<and> now < ce_expiration_time e)"
    by (cases "cmap k") (simp_all add: GetDomain_def)
next
  fix e assume "cmap k = Some e \<and> now < ce_expiration_time e"
  then show "GetDomain cmap now k ip0 = (True, ce_ip_address e, cmap)"
    by (simp add: GetDomain_hit)
next
  fix e assume h: "cmap k = Some e \<and> \<not> now < ce_expiration_time e"
  then have g: "GetDomain cmap now k ip0 = (False, ip0, cmap(k := None))"
    by (simp add: GetDomain_expired)
  show "fst (GetDomain cmap now k ip0) = False" by (simp add: g)
  show "fst (snd (GetDomain cmap now k ip0)) = ip0" by (simp add: g)
  show "snd (snd (GetDomain cmap now k ip0)) k = None" by (simp add: g)
  show "dom (snd (snd (GetDomain cmap now k ip0))) = dom cmap - {k}" by (simp add: g)
  show "dom (snd (snd (GetDomain cmap now k ip0))) \<subset> dom cmap"
    unfolding g snd_conv using h by (intro dom_erase_psubset [of _ _ e]) simp
  show "card (dom (snd (snd (GetDomain cmap now k ip0)))) < card (dom cmap)"
    if "finite (dom cmap)"
    unfolding g snd_conv using h that by (intro card_dom_erase [of _ _ e]) simp_all
qed

text \<open>
  The theorem at the cache of scenario S4 (TTL 10, entry inserted at instant 0): the
  lookup at instant 5 finds the address, the lookup at instant 11 erases the entry and
  leaves the cache empty.
\<close>

theorem GetDomain_lookup_iff_fresh_witness:
  "GetDomain (AddDomain 10 Map.empty 0 ''a'' ''1'') 5 ''a'' '''' =
     (True, ''1'', AddDomain 10 Map.empty 0 ''a'' ''1'')
   \<and> fst (GetDomain (AddDomain 10 Map.empty 0 ''a'' ''1'') 11 ''a'' '''') = False
   \<and> dom (snd (snd (GetDomain (AddDomain 10 Map.empty 0 ''a'' ''1'') 11 ''a'' ''''))) = {}
   \<and> card (dom (snd (snd (GetDomain (AddDomain 10 Map.empty 0 ''a'' ''1'') 11 ''a'' ''''))))
        < card (dom (AddDomain 10 Map.empty 0 ''a'' ''1''))"
  using GetDomain_lookup_iff_fresh [of "AddDomain 10 Map.empty 0 ''a'' ''1''" 5 "''a''" "''''"]
        GetDomain_lookup_iff_fresh [of "AddDomain 10 Map.empty 0 ''a'' ''1''" 11 "''a''" "''''"]
  by (simp add: AddDomain_def)

section \<open>Properties of the reply classification\<close>




lemma GetResponseCode_short: "length response < 3 \<Longrightarrow> GetResponseCode response = 0"
  by (simp add: GetResponseCode_def)


lemma GetResponseCode_no_number:
  assumes "\<not> isdigit_c a" "\<not> isspace_c a" "a \<noteq> CHR ''-''" "a \<noteq> CHR ''+''"
  shows "GetResponseCode (a # rest) = 0"
proof (cases "length (a # rest) < 3")
  case True
  then show ?thesis by (simp add: GetResponseCode_def)
next
  case False
  then obtain b c r where "rest = b # c # r"
    by (cases rest; cases "tl rest") auto
  then show ?thesis using assms by (simp add: GetResponseCode_def stoi_def)
qed

text \<open>
  \<open>std::stoi\<close> converts the longest numeric prefix, after white space and a sign. Called
  on a string whose first three characters are not all digits, \<open>GetResponseCode\<close> can
  therefore return a nonzero number. No caller in the repository does so: every call is
  made on a reply that \<open>ReadResponse\<close> has returned (lemma \<open>ReadResponse_loop_complete\<close>
  below).
\<close>

lemma GetResponseCode_partial_digits:
  "GetResponseCode ''2xx'' = 2
   \<and> GetResponseCode '' 42 hello'' = 42
   \<and> GetResponseCode ''-12'' = - 12
   \<and> GetResponseCode ''5 3 5'' = 5"
  by (simp add: GetResponseCode_def stoi_def isspace_c_def isdigit_c_def digits_val_def
      digit_val_def)

lemma IsSuccessResponse_iff:
  "IsSuccessResponse response \<longleftrightarrow> 200 \<le> GetResponseCode response \<and> GetResponseCode response < 400"
  by (simp add: IsSuccessResponse_def GetResponseCode_def Let_def)

text \<open>
  Claim C3. Every \<open>AuthResult\<close> that \<open>ProcessResponse\<close> builds from a reply has
  \<open>success\<close> exactly when \<open>200 \<le> response_code < 400\<close>.
\<close>

theorem ProcessResponse_success_iff_code:
  assumes "ProcessResponse user pass st = Inr (result, st')"
  shows "success result \<longleftrightarrow> 200 \<le> response_code result \<and> response_code result < 400"
proof -
  obtain r response st2 where rr: "ReadResponse st = (r, response, st2)"
    by (cases "ReadResponse st") auto
  with assms have "result = \<lparr>success = IsSuccessResponse response,
                     error_message = response,
                     response_code = GetResponseCode response,
                     username = user, password = pass\<rparr>"
    by (auto simp: ProcessResponse_def split: sum.splits if_splits)
  then show ?thesis by (simp add: IsSuccessResponse_iff)
qed

lemma ReadResponse_single_line:
  "ReadResponse [Data (''235 ok'' @ CRLF)] = (Inr True, ''235 ok'' @ CRLF, [])"
  by (simp add: ReadResponse_def ReadResponse_loop.simps CRLF_def c_str_def reply_complete_def
      isdigit_c_def)

theorem ProcessResponse_success_iff_code_witness:
  "ProcessResponse ''alice'' ''s3cret'' [Data (''235 ok'' @ CRLF)] =
     Inr (\<lparr>success = True, error_message = ''235 ok'' @ CRLF, response_code = 235,
           username = ''alice'', password = ''s3cret''\<rparr>, [])
   \<and> (success \<lparr>success = True, error_message = ''235 ok'' @ CRLF, response_code = 235,
           username = ''alice'', password = ''s3cret''\<rparr>
        \<longleftrightarrow> 200 \<le> (235 :: int) \<and> (235 :: int) < 400)"
proof -
  have p: "ProcessResponse ''alice'' ''s3cret'' [Data (''235 ok'' @ CRLF)] =
     Inr (\<lparr>success = True, error_message = ''235 ok'' @ CRLF, response_code = 235,
           username = ''alice'', password = ''s3cret''\<rparr>, [])"
    by (simp add: ProcessResponse_def ReadResponse_def ReadResponse_loop.simps c_str_def
        reply_complete_def IsSuccessResponse_def GetResponseCode_def stoi_def isspace_c_def isdigit_c_def
        digits_val_def digit_val_def CRLF_def)
  from ProcessResponse_success_iff_code [OF p] p show ?thesis by simp
qed






text \<open>
  Once the accumulated reply has a fourth character other than a space, no later data can
  make the completeness test succeed: the test looks at column 4 of the first line only.
\<close>

lemma reply_complete_append:
  "length response \<ge> 4 \<Longrightarrow> reply_complete (response @ extra) = reply_complete response"
  by (auto simp: reply_complete_def nth_append)

lemma ReadResponse_loop_never_completes:
  "length response \<ge> 4 \<Longrightarrow> \<not> reply_complete response \<Longrightarrow>
   fst (ReadResponse_loop response st) \<noteq> Inr True"
proof (induction response st rule: ReadResponse_loop.induct)
  case (1 response st)
  obtain r st' where rc: "Receive 1023 st = (r, st')" by (cases "Receive 1023 st") auto
  show ?case
  proof (cases r)
    case (Inl e)
    with rc show ?thesis by (simp add: ReadResponse_loop.simps [of response st])
  next
    case (Inr buf)
    show ?thesis
    proof (cases "length buf \<le> 0")
      case True
      with rc Inr show ?thesis by (simp add: ReadResponse_loop.simps [of response st])
    next
      case False
      have nc: "\<not> reply_complete (response @ c_str buf)"
        using "1.prems" by (simp add: reply_complete_append)
      have "fst (ReadResponse_loop (response @ c_str buf) st') \<noteq> Inr True"
        using "1.IH" [OF rc [symmetric] Inr False refl nc] "1.prems" nc by simp
      with rc Inr False nc show ?thesis
        by (simp add: ReadResponse_loop.simps [of response st])
    qed
  qed
qed

text \<open>
  Claim C2. On the two-line final reply of scenario S6 the receiver does not return the
  reply: column 4 of the accumulated text is \<open>-\<close>, so the loop asks the stream for more.
  When nothing more arrives \<open>Receive\<close> throws; when the peer closes, \<open>ReadResponse\<close>
  returns \<open>false\<close> and \<open>ProcessResponse\<close> throws. In neither case is an \<open>AuthResult\<close>
  built.
\<close>

theorem ProcessResponse_multiline_reply:
  "ProcessResponse ''alice'' ''s3cret''
     [Data (''535-5.7.8 authentication failed'' @ CRLF @ ''535 5.7.8 try later'' @ CRLF)]
     = Inl SocketException
   \<and> ProcessResponse ''alice'' ''s3cret''
     [Data (''535-5.7.8 authentication failed'' @ CRLF @ ''535 5.7.8 try later'' @ CRLF), Closed]
     = Inl (SMTPException ''Failed to read authentication response'')
   \<and> ProcessResponse ''alice'' ''s3cret''
     [Data (''535-5.7.8 authentication failed'' @ CRLF), Data (''535 5.7.8 try later'' @ CRLF), Closed]
     = Inl (SMTPException ''Failed to read authentication response'')"
  by (simp add: ProcessResponse_def ReadResponse_def ReadResponse_loop.simps CRLF_def c_str_def
      reply_complete_def isdigit_c_def)

section \<open>Properties of the DNS decoder\<close>

lemma follow_measure:
  fixes jumps t L offset :: nat
  assumes "jumps \<le> 128" "t < L"
  shows "(130 - (jumps + 1)) * (L + 1) + (L - t) < (130 - jumps) * (L + 1) + (L - offset)"
proof -
  have "130 - jumps = Suc (130 - (jumps + 1))" using assms by simp
  then have "(130 - jumps) * (L + 1) = (130 - (jumps + 1)) * (L + 1) + (L + 1)"
    by simp
  moreover have "L - t < L + 1" by simp
  ultimately show ?thesis by linarith
qed

text \<open>
  From every state the loop exits, having followed at most \<open>129 - jumps\<close> further
  pointers. The measure is lexicographic: each followed pointer uses up one of the jumps
  that the counter allows, each label moves \<open>offset\<close> towards the end of the buffer.
\<close>

lemma name_loop_exits:
  "\<exists>r k. name_loop buffer dname offset jumps originalOffset jumped followed = Some (r, k)
         \<and> r \<noteq> Inl NoReturn \<and> k \<le> followed + (129 - jumps)"
proof (induction "(130 - jumps) * (length buffer + 1) + (length buffer - offset)"
       arbitrary: dname offset jumps originalOffset jumped followed rule: less_induct)
  case less
  show ?case
  proof (cases "offset < length buffer")
    case False
    then show ?thesis by (subst name_loop.simps) (simp add: read_byte_def)
  next
    case inb: True
    define b where "b = buffer ! offset"
    have rb: "read_byte buffer offset = Inr b" using inb by (simp add: read_byte_def b_def)
    show ?thesis
    proof (cases "b = 0")
      case True
      with rb show ?thesis by (subst name_loop.simps) simp
    next
      case nz: False
      show ?thesis
      proof (cases "b AND 0xC0 = 0xC0")
        case ptr: True
        define t where "t = unat (pointerOffset_of b (buffer ! (offset + 1)))"
        show ?thesis
        proof (cases "offset + 2 > length buffer \<or> jumps > maxJumps \<or> t \<ge> length buffer")
          case True
          with rb nz ptr show ?thesis
            by (subst name_loop.simps) (auto simp: t_def Let_def)
        next
          case False
          then have j: "jumps \<le> 128" and tl: "t < length buffer"
            and o2: "\<not> offset + 2 > length buffer"
            by (simp_all add: maxJumps_def)
          have step: "name_loop buffer dname offset jumps originalOffset jumped followed =
                name_loop buffer dname t (jumps + 1)
                     (if \<not> jumped then originalOffset + 2 else originalOffset) True
                     (followed + 1)"
            using rb nz ptr j tl o2
            by (subst name_loop.simps) (simp add: t_def Let_def maxJumps_def)
          from less [OF follow_measure [OF j tl, of offset]]
          obtain r k where "name_loop buffer dname t (jumps + 1)
                     (if \<not> jumped then originalOffset + 2 else originalOffset) True
                     (followed + 1) = Some (r, k)" and "r \<noteq> Inl NoReturn"
                     and "k \<le> followed + 1 + (129 - (jumps + 1))"
            by blast
          with step j show ?thesis by auto
        qed
      next
        case lab: False
        show ?thesis
        proof (cases "offset + 1 + unat b > length buffer")
          case True
          with rb nz lab show ?thesis by (subst name_loop.simps) simp
        next
          case False
          define dname' where "dname' = (if dname \<noteq> [] then dname @ ''.'' else dname)
                           @ map byte_char (take (unat b) (drop (offset + 1) buffer))"
          define offset' where "offset' = offset + (unat b + 1)"
          have step: "name_loop buffer dname offset jumps originalOffset jumped followed =
               name_loop buffer dname' offset' jumps
                 (if \<not> jumped then offset' else originalOffset) jumped followed"
            using rb nz lab False
            by (subst name_loop.simps) (simp add: dname'_def offset'_def Let_def)
          have m: "(130 - jumps) * (length buffer + 1) + (length buffer - offset')
                 < (130 - jumps) * (length buffer + 1) + (length buffer - offset)"
            using inb False by (simp add: offset'_def)
          from less [OF m]
          obtain r k where "name_loop buffer dname' offset' jumps
                 (if \<not> jumped then offset' else originalOffset) jumped followed = Some (r, k)"
             and "r \<noteq> Inl NoReturn" and "k \<le> followed + (129 - jumps)"
            by blast
          with step show ?thesis by auto
        qed
      qed
    qed
  qed
qed

lemma pointer_byte_nonzero: "(b :: u8) AND 0xC0 = 0xC0 \<Longrightarrow> b \<noteq> 0"
  by auto

lemma name_loop_target_outside:
  assumes "offset + 2 \<le> length buffer" and "buffer ! offset AND 0xC0 = 0xC0"
    and "length buffer \<le> unat (pointerOffset_of (buffer ! offset) (buffer ! (offset + 1)))"
  shows "name_loop buffer dname offset jumps originalOffset jumped followed =
           Some (Inl (DNSParseError (if jumps > maxJumps then ''Too many compression jumps''
                                     else ''Invalid compression pointer offset'')), followed)"
  using assms pointer_byte_nonzero [OF assms(2)]
  by (subst name_loop.simps) (simp add: read_byte_def Let_def)

lemma name_loop_self_pointer:
  assumes "offset + 2 \<le> length buffer" and "buffer ! offset AND 0xC0 = 0xC0"
    and "unat (pointerOffset_of (buffer ! offset) (buffer ! (offset + 1))) = offset"
  shows "name_loop buffer dname offset jumps originalOffset jumped followed =
           Some (Inl (DNSParseError ''Too many compression jumps''), followed + (129 - jumps))"
proof (induction "129 - jumps" arbitrary: jumps originalOffset jumped followed)
  case 0
  then have "jumps > maxJumps" by (simp add: maxJumps_def)
  then show ?case
    using assms pointer_byte_nonzero [OF assms(2)] 0
    by (subst name_loop.simps) (simp add: read_byte_def Let_def)
next
  case (Suc n)
  then have j: "\<not> jumps > maxJumps" and n: "n = 129 - (jumps + 1)"
    by (simp_all add: maxJumps_def)
  have step: "name_loop buffer dname offset jumps originalOffset jumped followed =
       name_loop buffer dname offset (jumps + 1)
         (if \<not> jumped then originalOffset + 2 else originalOffset) True (followed + 1)"
    using assms pointer_byte_nonzero [OF assms(2)] j
    by (subst name_loop.simps) (simp add: read_byte_def Let_def)
  show ?case
    unfolding step Suc.hyps(1) [OF n] using Suc.hyps(2) by simp
qed

lemma ParseQuestion_name_error:
  "ExtractDomainName buffer offset = Inl (DNSParseError msg) \<Longrightarrow> ParseQuestion buffer offset = Inr None"
  by (simp add: ParseQuestion_def bind_r_def catch_DNSParseError_def)

lemma ParseResourceRecord_name_error:
  "ExtractDomainName buffer offset = Inl (DNSParseError msg) \<Longrightarrow>
   ParseResourceRecord buffer offset = Inr None"
  by (simp add: ParseResourceRecord_def bind_r_def catch_DNSParseError_def)

lemma ParseMessage_first_question_rejected:
  assumes "ParseHeader buffer = Inr (Some header)" and "qdcount header \<noteq> 0"
    and "ParseQuestion buffer sizeof_DNSHeader = Inr None"
  shows "ParseMessage buffer = Inr None"
proof -
  have len: "\<not> length buffer < sizeof_DNSHeader"
    using assms(1) by (auto simp: ParseHeader_def split: if_splits)
  from assms(2) have "unat (qdcount header) \<noteq> 0" by (simp add: unat_eq_0)
  then obtain n where n: "unat (qdcount header) = Suc n" by (cases "unat (qdcount header)") auto
  show ?thesis
    using len assms(1,3) by (simp add: ParseMessage_def n bind_b_def)
qed

lemma ParseMessage_short_buffer:
  "length buffer < 12 \<Longrightarrow> ParseMessage buffer = Inl (DNSParseError ''Buffer too small for DNS header'')"
  by (simp add: ParseMessage_def sizeof_DNSHeader_def)

text \<open>Scenario S1: a message that is a header only.\<close>

lemma ParseMessage_S1:
  "ParseMessage [0x12, 0x34, 0x81, 0x80, 0, 0, 0, 0, 0, 0, 0, 0] =
     Inr (Some \<lparr>msg_header = \<lparr>hdr_id = 0x1234, hdr_flags = 0x8180, qdcount = 0, ancount = 0,
                               nscount = 0, arcount = 0\<rparr>,
                 questions = [], answers = [], authorities = [], additionals = []\<rparr>)"
  by code_simp

text \<open>Scenario S2: a question and an answer whose name is a pointer back to offset 12.\<close>

lemma ParseMessage_S2:
  "ParseMessage
     [0x00, 0x01, 0x81, 0x80, 0x00, 0x01, 0x00, 0x01, 0x00, 0x00, 0x00, 0x00,
      0x07, 0x65, 0x78, 0x61, 0x6D, 0x70, 0x6C, 0x65, 0x03, 0x63, 0x6F, 0x6D, 0x00,
      0x00, 0x01, 0x00, 0x01,
      0xC0, 0x0C, 0x00, 0x01, 0x00, 0x01, 0x00, 0x00, 0x00, 0x3C, 0x00, 0x04,
      0x5D, 0xB8, 0xD8, 0x22] =
     Inr (Some \<lparr>msg_header = \<lparr>hdr_id = 1, hdr_flags = 0x8180, qdcount = 1, ancount = 1,
                               nscount = 0, arcount = 0\<rparr>,
                 questions = [\<lparr>qname = ''example.com'', qtype = 1, qclass = 1\<rparr>],
                 answers = [\<lparr>rr_name = ''example.com'', rr_type = 1, rr_rclass = 1,
                             rr_ttl = 60, rr_rdlength = 4,
                             rr_rdata = [0x5D, 0xB8, 0xD8, 0x22]\<rparr>],
                 authorities = [], additionals = []\<rparr>)"
  by code_simp

text \<open>
  Claim C1, as stated, fails: a pointer to an offset behind its own position is followed
  when that offset lies inside the buffer. In the three-byte buffer the pointer at offset 0
  has target 2, where the name ends; in the 18-byte message the first name is a pointer at
  offset 12 with target 16, and the decoder accepts the message.
\<close>

theorem forward_pointer_followed:
  "ExtractDomainName [0xC0, 0x02, 0x00] 0 = Inr ([], 2)
   \<and> ParseMessage [0, 1, 0, 0, 0, 1, 0, 0, 0, 0, 0, 0, 0xC0, 0x10, 0, 1, 0, 1] =
       Inr (Some \<lparr>msg_header = \<lparr>hdr_id = 1, hdr_flags = 0, qdcount = 1, ancount = 0,
                                 nscount = 0, arcount = 0\<rparr>,
                   questions = [\<lparr>qname = [], qtype = 1, qclass = 1\<rparr>],
                   answers = [], authorities = [], additionals = []\<rparr>)"
  by code_simp

text \<open>
  Claim C1, amended. When name decoding reaches a two-byte compression pointer whose
  target offset is at or beyond the end of the buffer, or is the pointer's own position,
  decoding fails with a \<open>DNSParseError\<close>. In particular, with such a pointer as the name at
  \<open>offset\<close>, \<open>ExtractDomainName\<close> throws, \<open>ParseQuestion\<close> and \<open>ParseResourceRecord\<close> return
  \<open>false\<close>, and a message whose first question starts with it is rejected.
\<close>

theorem pointer_outside_or_self_rejected:
  assumes "offset + 2 \<le> length buffer" and "buffer ! offset AND 0xC0 = 0xC0"
    and "length buffer \<le> unat (pointerOffset_of (buffer ! offset) (buffer ! (offset + 1)))
         \<or> unat (pointerOffset_of (buffer ! offset) (buffer ! (offset + 1))) = offset"
  shows "(\<exists>msg k. name_loop buffer dname offset jumps originalOffset jumped followed =
                    Some (Inl (DNSParseError msg), k))
         \<and> (\<exists>msg. ExtractDomainName buffer offset = Inl (DNSParseError msg))
         \<and> ParseQuestion buffer offset = Inr None
         \<and> ParseResourceRecord buffer offset = Inr None
         \<and> (offset = sizeof_DNSHeader
              \<and> (\<exists>header. ParseHeader buffer = Inr (Some header) \<and> qdcount header \<noteq> 0)
            \<longrightarrow> ParseMessage buffer = Inr None)"
proof -
  have loop: "\<exists>msg k. name_loop buffer dname' offset jumps' originalOffset' jumped' followed' =
                    Some (Inl (DNSParseError msg), k)"
    for dname' jumps' originalOffset' jumped' followed'
    using assms(3)
  proof
    assume "length buffer \<le> unat (pointerOffset_of (buffer ! offset) (buffer ! (offset + 1)))"
    from name_loop_target_outside [OF assms(1,2) this] show ?thesis by simp
  next
    assume "unat (pointerOffset_of (buffer ! offset) (buffer ! (offset + 1))) = offset"
    from name_loop_self_pointer [OF assms(1,2) this] show ?thesis by simp
  qed
  from loop [of "[]" 0 offset False 0]
  obtain msg where e: "ExtractDomainName buffer offset = Inl (DNSParseError msg)"
    by (auto simp: ExtractDomainName_def)
  have q: "ParseQuestion buffer offset = Inr None"
    by (rule ParseQuestion_name_error [OF e])
  have r: "ParseResourceRecord buffer offset = Inr None"
    by (rule ParseResourceRecord_name_error [OF e])
  have m: "offset = sizeof_DNSHeader
              \<and> (\<exists>header. ParseHeader buffer = Inr (Some header) \<and> qdcount header \<noteq> 0)
            \<longrightarrow> ParseMessage buffer = Inr None"
  proof
    assume h: "offset = sizeof_DNSHeader
              \<and> (\<exists>header. ParseHeader buffer = Inr (Some header) \<and> qdcount header \<noteq> 0)"
    then obtain header where "ParseHeader buffer = Inr (Some header)" "qdcount header \<noteq> 0"
      by blast
    moreover from h q have "ParseQuestion buffer sizeof_DNSHeader = Inr None" by simp
    ultimately show "ParseMessage buffer = Inr None"
      by (rule ParseMessage_first_question_rejected)
  qed
  have e': "\<exists>msg. ExtractDomainName buffer offset = Inl (DNSParseError msg)"
    using e by (rule exI)
  show ?thesis
    by (intro conjI) (rule loop, rule e', rule q, rule r, rule m)
qed

theorem pointer_outside_or_self_rejected_witness:
  "(\<exists>msg. ExtractDomainName [0, 1, 0, 0, 0, 1, 0, 0, 0, 0, 0, 0, 0xC0, 0x0E] 12
            = Inl (DNSParseError msg))
   \<and> ParseQuestion [0, 1, 0, 0, 0, 1, 0, 0, 0, 0, 0, 0, 0xC0, 0x0E] 12 = Inr None
   \<and> ParseMessage [0, 1, 0, 0, 0, 1, 0, 0, 0, 0, 0, 0, 0xC0, 0x0E] = Inr None
   \<and> ParseMessage [0, 1, 0, 0, 0, 1, 0, 0, 0, 0, 0, 0, 0xC0, 0x0C] = Inr None"
proof -
  have h: "ParseHeader [0, 1, 0, 0, 0, 1, 0, 0, 0, 0, 0, 0, 0xC0, x] =
        Inr (Some \<lparr>hdr_id = 1, hdr_flags = 0, qdcount = 1, ancount = 0, nscount = 0, arcount = 0\<rparr>)"
    for x
    by (simp add: ParseHeader_def sizeof_DNSHeader_def bind_r_def ReadUInt16_def read_byte_def)
  have a: "ParseMessage [0, 1, 0, 0, 0, 1, 0, 0, 0, 0, 0, 0, 0xC0, 0x0E] = Inr None
     \<and> (\<exists>msg. ExtractDomainName [0, 1, 0, 0, 0, 1, 0, 0, 0, 0, 0, 0, 0xC0, 0x0E] 12
            = Inl (DNSParseError msg))
     \<and> ParseQuestion [0, 1, 0, 0, 0, 1, 0, 0, 0, 0, 0, 0, 0xC0, 0x0E] 12 = Inr None"
    using pointer_outside_or_self_rejected
      [of 12 "[0, 1, 0, 0, 0, 1, 0, 0, 0, 0, 0, 0, 0xC0, 0x0E]" "[]" 0 12 False 0] h [of "0x0E"]
    by (simp add: pointerOffset_of_def sizeof_DNSHeader_def)
  have b: "ParseMessage [0, 1, 0, 0, 0, 1, 0, 0, 0, 0, 0, 0, 0xC0, 0x0C] = Inr None"
    using pointer_outside_or_self_rejected
      [of 12 "[0, 1, 0, 0, 0, 1, 0, 0, 0, 0, 0, 0, 0xC0, 0x0C]" "[]" 0 12 False 0] h [of "0x0C"]
    by (simp add: pointerOffset_of_def sizeof_DNSHeader_def)
  from a b show ?thesis by simp
qed

text \<open>
  Claim C4. The decoder reads the buffer at an index that is not below its length. A name
  whose last label ends exactly at the end of the buffer makes the loop of
  \<open>ExtractDomainName\<close> read \<open>buffer[N]\<close> for the next length byte, and \<open>ReadUInt16\<close> reads
  the fixed fields behind a name without any check. Of the claim, only the part about a
  buffer shorter than the header holds (lemma \<open>ParseMessage_short_buffer\<close>).
\<close>

theorem decoder_reads_past_end:
  "ExtractDomainName [0x01, 0x61] 0 = Inl (OutOfBoundsRead 2)
   \<and> ParseMessage [0, 1, 0, 0, 0, 1, 0, 0, 0, 0, 0, 0, 0x01, 0x61] = Inl (OutOfBoundsRead 14)
   \<and> ParseMessage [0, 1, 0, 0, 0, 1, 0, 0, 0, 0, 0, 0, 0x00] = Inl (OutOfBoundsRead 13)
   \<and> ParseMessage [0, 1, 0, 0, 0, 1, 0, 0, 0, 0, 0, 0, 0x00, 0x00, 0x01, 0x00] =
       Inl (OutOfBoundsRead 16)"
  by code_simp

text \<open>
  Claim C7, as stated, fails: in the two-byte buffer whose only name is a pointer to
  itself the loop follows 129 pointers before the jump counter makes it throw.
\<close>

theorem self_pointer_followed_129_times:
  "name_loop [0xC0, 0x00] [] 0 0 0 False 0 =
     Some (Inl (DNSParseError ''Too many compression jumps''), 129)
   \<and> length [0xC0, 0x00 :: u8] < 129"
  by code_simp

text \<open>
  Claim C7, amended. For every buffer and every starting offset the loop of
  \<open>ExtractDomainName\<close> exits, by returning a name, by throwing or by reading outside the
  buffer, and it has then followed at most 129 compression pointers, whatever the length
  of the buffer.
\<close>

theorem ExtractDomainName_exits_within_129_follows:
  "\<exists>r k. name_loop buffer [] offset 0 offset False 0 = Some (r, k)
         \<and> ExtractDomainName buffer offset = r \<and> r \<noteq> Inl NoReturn \<and> k \<le> 129"
proof -
  from name_loop_exits [of buffer "[]" offset 0 offset False 0]
  obtain r k where "name_loop buffer [] offset 0 offset False 0 = Some (r, k)"
    and "r \<noteq> Inl NoReturn" and "k \<le> 129"
    by auto
  then show ?thesis by (auto simp: ExtractDomainName_def)
qed

section \<open>Properties of the orchestrator\<close>

lemma remaining_Start: "remaining params (snd (Start params)) =
    List.product (usernames params) (passwords params)"
proof (cases "usernames params")
  case Nil
  then show ?thesis by (simp add: remaining_def Start_def)
next
  case (Cons u us)
  then show ?thesis by (simp add: remaining_def Start_def)
qed

lemma remaining_cong:
  "current_user_index st' = current_user_index st \<Longrightarrow>
   current_pass_index st' = current_pass_index st \<Longrightarrow> remaining params st' = remaining params st"
  by (simp add: remaining_def)

lemma GetNextCredentials_exhausted:
  "current_user_index st \<ge> length (usernames params) \<Longrightarrow>
   GetNextCredentials params st = Inr (('''', ''''), st)"
  by (simp add: GetNextCredentials_def)

lemma GetNextCredentials_step:
  assumes "current_user_index st < length (usernames params)"
    and "current_pass_index st < length (passwords params)"
  shows "\<exists>st'. GetNextCredentials params st =
            Inr ((usernames params ! current_user_index st,
                  passwords params ! current_pass_index st), st')
         \<and> remaining params st =
             (usernames params ! current_user_index st,
              passwords params ! current_pass_index st) # remaining params st'
         \<and> current_pass_index st' < length (passwords params)
         \<and> stop_requested st' = stop_requested st \<and> probed st' = probed st
         \<and> attempts_count st' = attempts_count st
         \<and> successful_auths st' = successful_auths st"
proof (cases "current_pass_index st + 1 \<ge> length (passwords params)")
  case True
  with assms(2) have d: "drop (current_pass_index st) (passwords params) =
      [passwords params ! current_pass_index st]"
    by (metis Cons_nth_drop_Suc Suc_eq_plus1 drop_all)
  have r: "List.product (drop (Suc (current_user_index st)) (usernames params)) (passwords params)
      = (if Suc (current_user_index st) \<ge> length (usernames params) then []
         else map (Pair (usernames params ! Suc (current_user_index st))) (passwords params)
              @ List.product (drop (Suc (Suc (current_user_index st))) (usernames params))
                  (passwords params))"
  proof (cases "Suc (current_user_index st) \<ge> length (usernames params)")
    case True
    then show ?thesis by simp
  next
    case False
    then have "drop (Suc (current_user_index st)) (usernames params) =
       usernames params ! Suc (current_user_index st)
         # drop (Suc (Suc (current_user_index st))) (usernames params)"
      by (simp add: Cons_nth_drop_Suc)
    with False show ?thesis by simp
  qed
  from assms(2) have "passwords params \<noteq> []" by auto
  then show ?thesis
    using assms True by (simp add: GetNextCredentials_def remaining_def d r Let_def)
next
  case False
  then have "drop (current_pass_index st) (passwords params) =
      passwords params ! current_pass_index st # drop (Suc (current_pass_index st)) (passwords params)"
    using assms(2) by (simp add: Cons_nth_drop_Suc)
  then show ?thesis
    using assms False by (simp add: GetNextCredentials_def remaining_def Let_def)
qed

lemma remaining_empty_iff:
  "current_pass_index st < length (passwords params) \<Longrightarrow>
   remaining params st = [] \<longleftrightarrow> current_user_index st \<ge> length (usernames params)"
  by (auto simp: remaining_def)

lemma draw_n_remaining:
  "current_pass_index st < length (passwords params) \<Longrightarrow> n \<le> length (remaining params st) \<Longrightarrow>
   \<exists>st'. draw_n params n st = Inr (take n (remaining params st), st')
        \<and> remaining params st' = drop n (remaining params st)
        \<and> current_pass_index st' < length (passwords params)"
proof (induction n arbitrary: st)
  case 0
  then show ?case by simp
next
  case (Suc n)
  then have "remaining params st \<noteq> []" by auto
  with Suc.prems(1) have ui: "current_user_index st < length (usernames params)"
    by (simp add: remaining_empty_iff)
  from GetNextCredentials_step [OF ui Suc.prems(1)]
  obtain c st1 where g: "GetNextCredentials params st = Inr (c, st1)"
    and r: "remaining params st = c # remaining params st1"
    and p: "current_pass_index st1 < length (passwords params)"
    by blast
  from Suc.prems(2) r have "n \<le> length (remaining params st1)" by simp
  from Suc.IH [OF p this]
  obtain st' where "draw_n params n st1 = Inr (take n (remaining params st1), st')"
    and "remaining params st' = drop n (remaining params st1)"
    and "current_pass_index st' < length (passwords params)"
    by blast
  with g r show ?case by simp
qed

lemma ProcessResult_fields:
  "current_user_index (ProcessResult params st result) = current_user_index st"
  "current_pass_index (ProcessResult params st result) = current_pass_index st"
  "probed (ProcessResult params st result) = probed st"
  by (simp_all add: ProcessResult_def Let_def)

lemma worker_iteration_inv:
  assumes inv: "run_inv params ws st"
    and nosent: "('''', '''') \<notin> set (List.product (usernames params) (passwords params))"
    and w: "w < length ws" "ws ! w"
    and it: "worker_iteration task params st = Inr (again, st')"
  shows "run_inv params (ws[w := again]) st'"
proof (cases "stop_requested st")
  case True
  with it have "st' = st" "again = False" by (simp_all add: worker_iteration_def)
  with inv True show ?thesis by (simp add: run_inv_def)
next
  case nostop: False
  from inv have pi: "current_pass_index st < length (passwords params)"
    and pr: "probed st @ remaining params st = List.product (usernames params) (passwords params)"
    by (simp_all add: run_inv_def)
  show ?thesis
  proof (cases "current_user_index st \<ge> length (usernames params)")
    case True
    with it nostop have "st' = st" "again = False"
      by (simp_all add: worker_iteration_def GetNextCredentials_exhausted)
    moreover from True have "remaining params st = []" by (simp add: remaining_def)
    ultimately show ?thesis using inv by (simp add: run_inv_def)
  next
    case False
    then have ui: "current_user_index st < length (usernames params)" by simp
    from GetNextCredentials_step [OF ui pi]
    obtain st1 where g: "GetNextCredentials params st =
            Inr ((usernames params ! current_user_index st,
                  passwords params ! current_pass_index st), st1)"
      and r: "remaining params st =
             (usernames params ! current_user_index st,
              passwords params ! current_pass_index st) # remaining params st1"
      and p1: "current_pass_index st1 < length (passwords params)"
      and f1: "probed st1 = probed st"
      by blast
    define c where "c = (usernames params ! current_user_index st,
                  passwords params ! current_pass_index st)"
    have "c \<in> set (probed st @ remaining params st)" using r by (simp add: c_def)
    with pr nosent have "c \<noteq> ('''', '''')" by metis
    then have ne: "\<not> (fst c = [] \<and> snd c = [])" by (cases c) auto
    define st2 where "st2 = st1\<lparr>probed := probed st1 @ [c]\<rparr>"
    define st3 where "st3 = (case task c of None \<Rightarrow> st2 | Some result \<Rightarrow> ProcessResult params st2 result)"
    from ne have ne': "(usernames params ! current_user_index st = []
        \<and> passwords params ! current_pass_index st = []) = False"
      by (simp add: c_def)
    have "worker_iteration task params st =
        Inr (True, st3\<lparr>attempts_count := attempts_count st3 + 1\<rparr>)"
      unfolding st3_def st2_def c_def worker_iteration_def using nostop
      by (simp add: g ne' Let_def)
    with it have again: "again = True"
      and st': "st' = st3\<lparr>attempts_count := attempts_count st3 + 1\<rparr>"
      by simp_all
    have i3: "current_user_index st3 = current_user_index st1"
      "current_pass_index st3 = current_pass_index st1" "probed st3 = probed st1 @ [c]"
      by (simp_all add: st3_def st2_def ProcessResult_fields split: option.split)
    have rem: "remaining params st' = remaining params st1"
      by (rule remaining_cong) (simp_all add: st' i3)
    have nf: "False \<notin> set ws"
    proof
      assume "False \<in> set ws"
      with inv nostop have "remaining params st = []" by (simp add: run_inv_def)
      with r show False by simp
    qed
    have ps: "probed st' = probed st @ [c]" by (simp add: st' i3 f1)
    have pi': "current_pass_index st' = current_pass_index st1" by (simp add: st' i3)
    have "False \<notin> set (ws[w := True])"
      using nf by (metis insertE set_update_subset_insert subsetD)
    then show ?thesis
      unfolding run_inv_def again using p1 pr r by (simp add: ps pi' rem c_def)
  qed
qed

lemma run_schedule_inv:
  assumes nosent: "('''', '''') \<notin> set (List.product (usernames params) (passwords params))"
  shows "run_inv params ws st \<Longrightarrow> run_schedule task params sched (ws, st) = Inr (ws', st') \<Longrightarrow>
         run_inv params ws' st' \<and> length ws' = length ws"
proof (induction sched arbitrary: ws st)
  case Nil
  then show ?case by simp
next
  case (Cons w sched)
  show ?case
  proof (cases "w < length ws \<and> ws ! w")
    case False
    with Cons show ?thesis by auto
  next
    case True
    with Cons.prems(2) obtain again st1 where
      it: "worker_iteration task params st = Inr (again, st1)"
      and rest: "run_schedule task params sched (ws[w := again], st1) = Inr (ws', st')"
      by (auto split: sum.splits)
    from worker_iteration_inv [OF Cons.prems(1) nosent _ _ it, of w] True
    have "run_inv params (ws[w := again]) st1" by simp
    from Cons.IH [OF this rest] show ?thesis by simp
  qed
qed

lemma run_inv_Start:
  "passwords params \<noteq> [] \<Longrightarrow> run_inv params (fst (Start params)) (snd (Start params))"
  using remaining_Start [of params] by (simp add: run_inv_def) (simp add: Start_def)

lemma all_pairs_probed_on_completion:
  assumes "passwords params \<noteq> []"
    and "('''', '''') \<notin> set (List.product (usernames params) (passwords params))"
    and "max_concurrent_connections params \<ge> 1"
    and "run_schedule task params sched (Start params) = Inr (ws', st')"
    and "\<forall>b \<in> set ws'. \<not> b" and "\<not> stop_requested st'"
  shows "probed st' = List.product (usernames params) (passwords params)"
proof -
  have "run_schedule task params sched (fst (Start params), snd (Start params)) = Inr (ws', st')"
    using assms(4) by simp
  from run_schedule_inv [OF assms(2) run_inv_Start [OF assms(1)] this]
  have inv: "run_inv params ws' st'" and len: "length ws' = length (fst (Start params))"
    by simp_all
  from len assms(3) have "ws' \<noteq> []" by (auto simp: Start_def)
  then obtain b where "b \<in> set ws'" by (cases ws') auto
  with assms(5) have "False \<in> set ws'" by (cases b) auto
  with inv assms(6) have "remaining params st' = []" by (simp add: run_inv_def)
  with inv show ?thesis by (simp add: run_inv_def)
qed

lemma GetNextCredentials_probed:
  "GetNextCredentials params st = Inr (c, st1) \<Longrightarrow>
   probed st1 = probed st \<and> attempts_count st1 = attempts_count st"
  by (auto simp: GetNextCredentials_def Let_def split: if_splits)

lemma worker_iteration_probed:
  assumes "worker_iteration task params st = Inr (again, st')"
    and "('''', '''') \<notin> set (probed st)"
  shows "('''', '''') \<notin> set (probed st')"
proof (cases "stop_requested st")
  case True
  with assms show ?thesis by (simp add: worker_iteration_def)
next
  case False
  with assms(1) obtain user pass st1 where g: "GetNextCredentials params st = Inr ((user, pass), st1)"
    by (auto simp: worker_iteration_def split: sum.splits)
  from GetNextCredentials_probed [OF g] have p1: "probed st1 = probed st" by simp
  show ?thesis
  proof (cases "user = [] \<and> pass = []")
    case True
    with assms False g p1 show ?thesis by (simp add: worker_iteration_def)
  next
    case ne: False
    then have ne': "(user = [] \<and> pass = []) = False" by simp
    have "probed st' = probed st @ [(user, pass)]"
      using assms(1) False p1
      by (auto simp: worker_iteration_def g ne' Let_def ProcessResult_fields split: option.splits)
    with assms(2) ne show ?thesis by auto
  qed
qed

lemma run_schedule_probed:
  "run_schedule task params sched (ws, st) = Inr (ws', st') \<Longrightarrow>
   ('''', '''') \<notin> set (probed st) \<Longrightarrow> ('''', '''') \<notin> set (probed st')"
proof (induction sched arbitrary: ws st)
  case Nil
  then show ?case by simp
next
  case (Cons w sched)
  show ?case
  proof (cases "w < length ws \<and> ws ! w")
    case False
    with Cons show ?thesis by auto
  next
    case True
    with Cons.prems(1) obtain again st1 where
      it: "worker_iteration task params st = Inr (again, st1)"
      and rest: "run_schedule task params sched (ws[w := again], st1) = Inr (ws', st')"
      by (auto split: sum.splits)
    from worker_iteration_probed [OF it Cons.prems(2)] Cons.IH [OF rest] show ?thesis by simp
  qed
qed

lemma worker_iteration_sentinel:
  "\<not> stop_requested st \<Longrightarrow> GetNextCredentials params st = Inr (('''', ''''), st1) \<Longrightarrow>
   worker_iteration task params st = Inr (False, st1)"
  by (simp add: worker_iteration_def)

text \<open>
  Claim C6, as stated, fails where the product contains the pair of two empty strings.
  With user names \<open>["", "bob"]\<close>, the single password \<open>""\<close> and one worker, the worker
  draws \<open>("", "")\<close> first and leaves its loop: all workers have finished, no stop was
  requested, and nothing of the product has been probed.
\<close>

theorem empty_pair_ends_run_early:
  "run_schedule Execute_once
     \<lparr>usernames = ['''', ''bob''], passwords = [''''], max_concurrent_connections = 1,
      stop_on_success = False\<rparr> [0, 0, 0]
     (Start \<lparr>usernames = ['''', ''bob''], passwords = [''''], max_concurrent_connections = 1,
             stop_on_success = False\<rparr>) =
     Inr ([False], \<lparr>current_user_index = 1, current_pass_index = 0, stop_requested = False,
                    attempts_count = 0, successful_auths = [], probed = []\<rparr>)
   \<and> List.product ['''', ''bob''] [''''] = [('''', ''''), (''bob'', '''')]"
  by (simp add: Start_def worker_iteration_def GetNextCredentials_def Execute_once_def)

text \<open>
  Claim C6, amended. For every list of user names and every non-empty list of passwords,
  the successive calls of \<open>GetNextCredentials\<close> hand out the cartesian product in
  row-major order, the \<open>k\<close>-th call the pair at row \<open>k div |passwords|\<close> and column
  \<open>k mod |passwords|\<close>, so each position exactly once; after that every call returns the
  pair of empty strings. If that pair does not occur in the product, then whenever all
  workers (at least one) have left their loops and no stop was requested, the pairs probed
  are exactly the product, in the order of the draws.
\<close>

theorem credentials_in_product_order:
  assumes "passwords params \<noteq> []"
  shows "\<exists>ds st1.
           draw_n params (length (usernames params) * length (passwords params))
             (snd (Start params)) = Inr (ds, st1)
         \<and> ds = List.product (usernames params) (passwords params)
         \<and> (\<forall>k < length ds. ds ! k = (usernames params ! (k div length (passwords params)),
                                       passwords params ! (k mod length (passwords params))))
         \<and> GetNextCredentials params st1 = Inr (('''', ''''), st1)
         \<and> (\<forall>task sched ws' st'.
               ('''', '''') \<notin> set ds \<and> max_concurrent_connections params \<ge> 1
               \<and> run_schedule task params sched (Start params) = Inr (ws', st')
               \<and> (\<forall>b \<in> set ws'. \<not> b) \<and> \<not> stop_requested st'
               \<longrightarrow> probed st' = ds)"
proof -
  let ?prod = "List.product (usernames params) (passwords params)"
  have p0: "current_pass_index (snd (Start params)) < length (passwords params)"
    using assms by (simp add: Start_def)
  have n: "length (usernames params) * length (passwords params)
             \<le> length (remaining params (snd (Start params)))"
    by (simp add: remaining_Start length_product)
  from draw_n_remaining [OF p0 n]
  obtain st1 where d: "draw_n params (length (usernames params) * length (passwords params))
             (snd (Start params)) = Inr (?prod, st1)"
    and r: "remaining params st1 = []" and p1: "current_pass_index st1 < length (passwords params)"
    by (auto simp: remaining_Start length_product)
  from r p1 have "current_user_index st1 \<ge> length (usernames params)"
    by (simp add: remaining_empty_iff)
  then have g: "GetNextCredentials params st1 = Inr (('''', ''''), st1)"
    by (rule GetNextCredentials_exhausted)
  have nth: "\<forall>k < length ?prod. ?prod ! k = (usernames params ! (k div length (passwords params)),
                                       passwords params ! (k mod length (passwords params)))"
    by (simp add: length_product product_nth)
  have run: "\<forall>task sched ws' st'.
               ('''', '''') \<notin> set ?prod \<and> max_concurrent_connections params \<ge> 1
               \<and> run_schedule task params sched (Start params) = Inr (ws', st')
               \<and> (\<forall>b \<in> set ws'. \<not> b) \<and> \<not> stop_requested st'
               \<longrightarrow> probed st' = ?prod"
    using all_pairs_probed_on_completion [OF assms] by blast
  from d nth g run show ?thesis by blast
qed

theorem credentials_in_product_order_witness:
  "(\<exists>st1. draw_n \<lparr>usernames = [''a'', ''b''], passwords = [''x'', ''y'', ''z''],
                   max_concurrent_connections = 2, stop_on_success = False\<rparr> 6
            (snd (Start \<lparr>usernames = [''a'', ''b''], passwords = [''x'', ''y'', ''z''],
                   max_concurrent_connections = 2, stop_on_success = False\<rparr>)) =
          Inr ([(''a'', ''x''), (''a'', ''y''), (''a'', ''z''),
                (''b'', ''x''), (''b'', ''y''), (''b'', ''z'')], st1))
   \<and> (\<exists>ws' st'. run_schedule Execute_once
                   \<lparr>usernames = [''a'', ''b''], passwords = [''x'', ''y'', ''z''],
                    max_concurrent_connections = 2, stop_on_success = False\<rparr>
                   [0, 1, 1, 0, 1, 1, 0, 0, 1]
                   (Start \<lparr>usernames = [''a'', ''b''], passwords = [''x'', ''y'', ''z''],
                    max_concurrent_connections = 2, stop_on_success = False\<rparr>) = Inr (ws', st')
                 \<and> ws' = [False, False]
                 \<and> probed st' = [(''a'', ''x''), (''a'', ''y''), (''a'', ''z''),
                                 (''b'', ''x''), (''b'', ''y''), (''b'', ''z'')])"
proof -
  let ?p = "\<lparr>usernames = [''a'', ''b''], passwords = [''x'', ''y'', ''z''],
             max_concurrent_connections = 2, stop_on_success = False\<rparr>"
  let ?ds = "[(''a'', ''x''), (''a'', ''y''), (''a'', ''z''),
              (''b'', ''x''), (''b'', ''y''), (''b'', ''z'')]"
  have ne: "passwords ?p \<noteq> []" by simp
  from credentials_in_product_order [OF ne]
  obtain ds st1 where d0: "draw_n ?p (length (usernames ?p) * length (passwords ?p))
             (snd (Start ?p)) = Inr (ds, st1)"
    and dsp: "ds = List.product (usernames ?p) (passwords ?p)"
    and run: "\<forall>task sched ws' st'.
               ('''', '''') \<notin> set ds \<and> max_concurrent_connections ?p \<ge> 1
               \<and> run_schedule task ?p sched (Start ?p) = Inr (ws', st')
               \<and> (\<forall>b \<in> set ws'. \<not> b) \<and> \<not> stop_requested st'
               \<longrightarrow> probed st' = ds"
    by blast
  have dsv: "ds = ?ds" using dsp by simp
  have n6: "length (usernames ?p) * length (passwords ?p) = 6" by simp
  from d0 have d: "draw_n ?p 6 (snd (Start ?p)) = Inr (?ds, st1)"
    by (simp only: n6 dsv)
  obtain st' where r: "run_schedule Execute_once ?p [0, 1, 1, 0, 1, 1, 0, 0, 1] (Start ?p)
      = Inr ([False, False], st')" and s: "\<not> stop_requested st'"
    by (simp add: Start_def worker_iteration_def GetNextCredentials_def Execute_once_def
        numeral_2_eq_2)
  have "('''', '''') \<notin> set ds \<and> max_concurrent_connections ?p \<ge> 1
               \<and> run_schedule Execute_once ?p [0, 1, 1, 0, 1, 1, 0, 0, 1] (Start ?p)
                   = Inr ([False, False], st')
               \<and> (\<forall>b \<in> set [False, False]. \<not> b) \<and> \<not> stop_requested st'"
    using r s by (simp add: dsv)
  with run have "probed st' = ds" by blast
  with d r dsv show ?thesis by blast
qed

text \<open>
  Claim C10. \<open>GetNextCredentials\<close> answers an exhausted cursor with the pair of two empty
  strings and leaves the state as it is; a worker that draws that pair leaves its loop at
  once, without probing and without counting an attempt; so the pair is never probed in
  any run. Where the entries of both lists under the cursor are empty strings, the pair is
  a real credential pair: it is used up, the worker that drew it stops, and the pair is
  not probed.
\<close>

theorem empty_pair_is_stop_signal:
  "(current_user_index st \<ge> length (usernames params) \<longrightarrow>
      GetNextCredentials params st = Inr (('''', ''''), st))
   \<and> (\<not> stop_requested st \<and> GetNextCredentials params st = Inr (('''', ''''), st1) \<longrightarrow>
        worker_iteration task params st = Inr (False, st1)
        \<and> probed st1 = probed st \<and> attempts_count st1 = attempts_count st)
   \<and> (run_schedule task params sched (ws, st) = Inr (ws', st')
        \<and> ('''', '''') \<notin> set (probed st) \<longrightarrow> ('''', '''') \<notin> set (probed st'))
   \<and> (\<not> stop_requested st
        \<and> current_user_index st < length (usernames params)
        \<and> current_pass_index st < length (passwords params)
        \<and> usernames params ! current_user_index st = ''''
        \<and> passwords params ! current_pass_index st = '''' \<longrightarrow>
        (\<exists>st2. worker_iteration task params st = Inr (False, st2)
               \<and> probed st2 = probed st \<and> attempts_count st2 = attempts_count st
               \<and> remaining params st = ('''', '''') # remaining params st2))"
proof (intro conjI impI)
  assume "current_user_index st \<ge> length (usernames params)"
  then show "GetNextCredentials params st = Inr (('''', ''''), st)"
    by (rule GetNextCredentials_exhausted)
next
  assume h: "\<not> stop_requested st \<and> GetNextCredentials params st = Inr (('''', ''''), st1)"
  then show "worker_iteration task params st = Inr (False, st1)"
    by (simp add: worker_iteration_sentinel)
  from h GetNextCredentials_probed [of params st "('''', '''')" st1]
  show "probed st1 = probed st" "attempts_count st1 = attempts_count st" by simp_all
next
  assume "run_schedule task params sched (ws, st) = Inr (ws', st')
        \<and> ('''', '''') \<notin> set (probed st)"
  then show "('''', '''') \<notin> set (probed st')"
    using run_schedule_probed by blast
next
  assume h: "\<not> stop_requested st
        \<and> current_user_index st < length (usernames params)
        \<and> current_pass_index st < length (passwords params)
        \<and> usernames params ! current_user_index st = ''''
        \<and> passwords params ! current_pass_index st = ''''"
  then have ui: "current_user_index st < length (usernames params)"
    and pi: "current_pass_index st < length (passwords params)" by simp_all
  from GetNextCredentials_step [OF ui pi] h
  obtain st2 where g: "GetNextCredentials params st = Inr (('''', ''''), st2)"
    and r: "remaining params st = ('''', '''') # remaining params st2"
    and f: "probed st2 = probed st" "attempts_count st2 = attempts_count st"
    by auto
  from h g have "worker_iteration task params st = Inr (False, st2)"
    by (simp add: worker_iteration_sentinel)
  with r f show "\<exists>st2. worker_iteration task params st = Inr (False, st2)
               \<and> probed st2 = probed st \<and> attempts_count st2 = attempts_count st
               \<and> remaining params st = ('''', '''') # remaining params st2"
    by blast
qed

theorem empty_pair_is_stop_signal_witness:
  "GetNextCredentials
     \<lparr>usernames = ['''', ''b''], passwords = [''''], max_concurrent_connections = 1,
      stop_on_success = False\<rparr>
     \<lparr>current_user_index = 2, current_pass_index = 0, stop_requested = False,
      attempts_count = 1, successful_auths = [], probed = [(''b'', '''')]\<rparr>
     = Inr (('''', ''''),
         \<lparr>current_user_index = 2, current_pass_index = 0, stop_requested = False,
          attempts_count = 1, successful_auths = [], probed = [(''b'', '''')]\<rparr>)
   \<and> worker_iteration Execute_once
     \<lparr>usernames = ['''', ''b''], passwords = [''''], max_concurrent_connections = 1,
      stop_on_success = False\<rparr>
     \<lparr>current_user_index = 2, current_pass_index = 0, stop_requested = False,
      attempts_count = 1, successful_auths = [], probed = [(''b'', '''')]\<rparr>
     = Inr (False,
         \<lparr>current_user_index = 2, current_pass_index = 0, stop_requested = False,
          attempts_count = 1, successful_auths = [], probed = [(''b'', '''')]\<rparr>)
   \<and> (\<exists>st2. worker_iteration Execute_once
         \<lparr>usernames = ['''', ''b''], passwords = [''''], max_concurrent_connections = 1,
          stop_on_success = False\<rparr>
         (snd (Start \<lparr>usernames = ['''', ''b''], passwords = [''''],
                      max_concurrent_connections = 1, stop_on_success = False\<rparr>))
         = Inr (False, st2) \<and> probed st2 = [] \<and> attempts_count st2 = 0)
   \<and> (\<exists>ws' st'. run_schedule Execute_once
         \<lparr>usernames = ['''', ''b''], passwords = [''''], max_concurrent_connections = 2,
          stop_on_success = False\<rparr> [0, 1, 1, 0]
         (Start \<lparr>usernames = ['''', ''b''], passwords = [''''],
                      max_concurrent_connections = 2, stop_on_success = False\<rparr>)
         = Inr (ws', st') \<and> ('''', '''') \<notin> set (probed st'))"
proof -
  let ?p = "\<lparr>usernames = ['''', ''b''], passwords = [''''], max_concurrent_connections = 1,
      stop_on_success = False\<rparr>"
  let ?p2 = "\<lparr>usernames = ['''', ''b''], passwords = [''''], max_concurrent_connections = 2,
      stop_on_success = False\<rparr>"
  let ?ex = "\<lparr>current_user_index = 2, current_pass_index = 0, stop_requested = False,
      attempts_count = 1, successful_auths = [], probed = [(''b'', '''')]\<rparr>"
  have a: "GetNextCredentials ?p ?ex = Inr (('''', ''''), ?ex)"
    using empty_pair_is_stop_signal
      [where st = ?ex and params = ?p and ?st1.0 = ?ex and task = Execute_once
         and sched = "[]" and ws = "[]" and ws' = "[]" and st' = ?ex]
    by simp
  have b: "worker_iteration Execute_once ?p ?ex = Inr (False, ?ex)"
    using empty_pair_is_stop_signal
      [where st = ?ex and params = ?p and ?st1.0 = ?ex and task = Execute_once
         and sched = "[]" and ws = "[]" and ws' = "[]" and st' = ?ex] a
    by simp
  have c: "\<exists>st2. worker_iteration Execute_once ?p (snd (Start ?p)) = Inr (False, st2)
       \<and> probed st2 = [] \<and> attempts_count st2 = 0"
    using empty_pair_is_stop_signal
      [where st = "snd (Start ?p)" and params = ?p and task = Execute_once
         and ?st1.0 = "snd (Start ?p)" and sched = "[]" and ws = "[]" and ws' = "[]"
         and st' = "snd (Start ?p)"]
    by (auto simp: Start_def)
  obtain ws' st' where r: "run_schedule Execute_once ?p2 [0, 1, 1, 0] (Start ?p2) = Inr (ws', st')"
    by (simp add: Start_def worker_iteration_def GetNextCredentials_def Execute_once_def
        numeral_2_eq_2)
  have d: "('''', '''') \<notin> set (probed st')"
    using empty_pair_is_stop_signal
      [where st = "snd (Start ?p2)" and params = ?p2 and task = Execute_once
         and sched = "[0, 1, 1, 0]" and ws = "fst (Start ?p2)" and ws' = ws' and st' = st'
         and ?st1.0 = "snd (Start ?p2)"] r
    by (simp add: Start_def)
  from a b c d r show ?thesis by blast
qed

section \<open>Properties of Base64\<close>

lemma and_63_mod: "(n :: nat) AND 0x3F = n mod 64"
proof -
  have "n AND mask 6 = take_bit 6 n" by (simp add: take_bit_eq_mask)
  then show ?thesis by (simp add: take_bit_eq_mod mask_eq_exp_minus_1)
qed

lemma and_255_mod: "(n :: nat) AND 0xFF = n mod 256"
proof -
  have "n AND mask 8 = take_bit 8 n" by (simp add: take_bit_eq_mask)
  then show ?thesis by (simp add: take_bit_eq_mod mask_eq_exp_minus_1)
qed

lemma triple_of_bound: "a < 256 \<Longrightarrow> b < 256 \<Longrightarrow> c < 256 \<Longrightarrow> triple_of a b c < 2 ^ 24"
  by (simp add: triple_of_def push_bit_eq_mult)

lemma sextets_recombine:
  fixes t :: nat
  assumes "t < 2 ^ 24"
  shows "push_bit 18 (drop_bit 18 t AND 0x3F) + push_bit 12 (drop_bit 12 t AND 0x3F)
         + push_bit 6 (drop_bit 6 t AND 0x3F) + (t AND 0x3F) = t"
proof -
  have "t div 262144 < 64" using assms by simp
  then have a: "(t div 262144) mod 64 = t div 262144" by simp
  have e1: "t div 4096 div 64 = t div 262144" by (simp add: div_mult2_eq [symmetric])
  have e2: "t div 64 div 64 = t div 4096" by (simp add: div_mult2_eq [symmetric])
  have b: "t div 4096 = (t div 262144) * 64 + (t div 4096) mod 64"
    unfolding e1 [symmetric] by simp
  have c: "t div 64 = (t div 4096) * 64 + (t div 64) mod 64"
    unfolding e2 [symmetric] by simp
  have d: "t = (t div 64) * 64 + t mod 64" by simp
  have fin: "q3 * 262144 + r2 * 4096 + r1 * 64 + r0 = u"
    if "x = q3 * 64 + r2" "y = x * 64 + r1" "u = y * 64 + r0" for x y q3 r2 r1 r0 u :: nat
    using that by simp
  have "t div 262144 * 262144 + t div 4096 mod 64 * 4096 + t div 64 mod 64 * 64 + t mod 64 = t"
    by (rule fin [OF b c d])
  then show ?thesis
    using a by (simp add: and_63_mod push_bit_eq_mult drop_bit_eq_div)
qed

lemma triple_bytes:
  assumes "a < 256" "b < 256" "c < 256"
  shows "drop_bit 16 (triple_of a b c) AND 0xFF = a"
    and "drop_bit 8 (triple_of a b c) AND 0xFF = b"
    and "triple_of a b c AND 0xFF = c"
proof -
  have t: "triple_of a b c = a * 65536 + b * 256 + c"
    by (simp add: triple_of_def push_bit_eq_mult)
  have "(a * 65536 + b * 256 + c) div 65536 = a" using assms by simp
  then show "drop_bit 16 (triple_of a b c) AND 0xFF = a"
    using assms by (simp add: t and_255_mod drop_bit_eq_div)
  have "(a * 65536 + b * 256 + c) div 256 = a * 256 + b" using assms by simp
  then show "drop_bit 8 (triple_of a b c) AND 0xFF = b"
    using assms by (simp add: t and_255_mod drop_bit_eq_div)
  have "a * 65536 + b * 256 + c = (a * 256 + b) * 256 + c" by simp
  then have "(a * 65536 + b * 256 + c) mod 256 = c"
    using assms by (simp only: mod_mult_self3 mod_less)
  then show "triple_of a b c AND 0xFF = c"
    by (simp add: t and_255_mod)
qed

lemma low_sextets_zero:
  "triple_of a b 0 AND 0x3F = 0" "drop_bit 6 (triple_of a 0 0) AND 0x3F = 0"
  by (simp_all add: triple_of_def push_bit_eq_mult and_63_mod drop_bit_eq_div)

lemma decoding_table_alphabet:
  "list_all (\<lambda>k. decoding_table (encoding_table ! k) = k) [0..<64]"
  by code_simp

lemma alphabet_chars:
  "list_all (\<lambda>c. c \<noteq> CHR ''='' \<and> \<not> isspace_c c \<and> decoding_table c \<noteq> 0xFF) encoding_table"
  by code_simp

lemma length_encoding_table: "length encoding_table = 64"
  by (simp add: encoding_table_def)

lemma length_enc4 [simp]: "length (enc4 t) = 4"
  by (simp add: enc4_def)

lemma Encode_loop_groups:
  "Encode_loop (pre @ s) (length pre) out = out @ enc_all s"
proof (induction s arbitrary: pre out rule: enc_all.induct)
  case 1
  then show ?case by (subst Encode_loop.simps) simp
next
  case (2 a)
  have "Encode_loop (pre @ [a]) (length pre + 1) out' = out'" for out'
    by (subst Encode_loop.simps) simp
  then show ?case
    by (subst Encode_loop.simps) (simp add: enc4_def triple_of_def Let_def)
next
  case (3 a b)
  have "Encode_loop (pre @ [a, b]) (length pre + 2) out' = out'" for out'
    by (subst Encode_loop.simps) simp
  then show ?case
    by (subst Encode_loop.simps) (simp add: enc4_def triple_of_def nth_append Let_def)
next
  case (4 a b c rest)
  have ih: "Encode_loop (pre @ a # b # c # rest) (Suc (Suc (Suc (length pre)))) out' =
      out' @ enc_all rest"
    for out'
    using "4.IH" [of "pre @ [a, b, c]" out'] by simp
  show ?case
    by (subst Encode_loop.simps) (simp add: enc4_def triple_of_def nth_append ih Let_def)
qed

lemma div3_step: "(5 + n) div 3 = Suc (Suc (Suc n) div 3)"
  by presburger

lemma length_enc_all: "length (enc_all s) = 4 * ((length s + 2) div 3)"
  by (induction s rule: enc_all.induct) (simp_all add: div3_step)

lemma length_base64_padded: "length (base64_padded s) = 4 * ((length s + 2) div 3)"
  by (induction s rule: base64_padded.induct) (simp_all add: div3_step)

lemma enc_all_nonempty: "s \<noteq> [] \<Longrightarrow> 4 \<le> length (enc_all s)"
  by (cases s) (simp_all add: length_enc_all)

lemma pad_update:
  "s \<noteq> [] \<Longrightarrow>
   (if 3 - length s mod 3 < 3
    then if 3 - length s mod 3 = 2
         then (enc_all s)[length (enc_all s) - 1 := CHR ''='', length (enc_all s) - 2 := CHR ''='']
         else (enc_all s)[length (enc_all s) - 1 := CHR ''='']
    else enc_all s) = base64_padded s"
proof (induction s rule: enc_all.induct)
  case 1
  then show ?case by simp
next
  case (2 a)
  show ?case by (simp add: enc4_def)
next
  case (3 a b)
  show ?case by (simp add: enc4_def)
next
  case (4 a b c rest)
  show ?case
  proof (cases "rest = []")
    case True
    then show ?thesis by simp
  next
    case False
    define g where "g = enc4 (triple_of (of_char a) (of_char b) (of_char c))"
    define e where "e = enc_all rest"
    from enc_all_nonempty [OF False] have l: "4 \<le> length e" by (simp add: e_def)
    have m: "length (a # b # c # rest) mod 3 = length rest mod 3" by simp
    have E: "enc_all (a # b # c # rest) = g @ e" by (simp add: g_def e_def)
    have B: "base64_padded (a # b # c # rest) = g @ base64_padded rest" by (simp add: g_def)
    have U1: "(g @ ys)[length (g @ e) - 1 := x] = g @ ys[length e - 1 := x]" for ys x
      using l by (auto simp: list_update_append g_def)
    have U2: "(g @ ys)[length (g @ e) - 2 := x] = g @ ys[length e - 2 := x]" for ys x
      using l by (auto simp: list_update_append g_def)
    consider (z) "length rest mod 3 = 0" | (o) "length rest mod 3 = 1" | (t) "length rest mod 3 = 2"
      by linarith
    then show ?thesis
    proof cases
      case z
      with "4.IH" [OF False] have "e = base64_padded rest" by (simp add: e_def)
      with z show ?thesis unfolding E B m by simp
    next
      case o
      with "4.IH" [OF False]
      have "e[length e - 1 := CHR ''='', length e - 2 := CHR ''=''] = base64_padded rest"
        by (simp add: e_def)
      with o show ?thesis unfolding E B m U1 U2 by simp
    next
      case t
      with "4.IH" [OF False]
      have "e[length e - 1 := CHR ''=''] = base64_padded rest"
        by (simp add: e_def)
      with t show ?thesis unfolding E B m U1 U2 by simp
    qed
  qed
qed

lemma Encode_eq_base64_padded: "Encode s = base64_padded s"
proof (cases "s = []")
  case True
  then show ?thesis by (simp add: Encode_def)
next
  case False
  have "Encode_loop s 0 [] = enc_all s"
    using Encode_loop_groups [of "[]" s "[]"] by simp
  with pad_update [OF False] False show ?thesis
    by (simp add: Encode_def Let_def length_enc_all split: if_splits)
qed

lemma sextet_index_bound: "(n :: nat) AND 0x3F < 64"
  by (simp add: and_63_mod)

lemma alphabet_char:
  assumes "k < 64"
  shows "encoding_table ! k \<noteq> CHR ''=''" and "\<not> isspace_c (encoding_table ! k)"
    and "decoding_table (encoding_table ! k) = k" and "sextet_of (encoding_table ! k) = k"
proof -
  from alphabet_chars assms
  have a: "encoding_table ! k \<noteq> CHR ''='' \<and> \<not> isspace_c (encoding_table ! k)"
    by (simp add: list_all_length length_encoding_table)
  from decoding_table_alphabet assms have d: "decoding_table (encoding_table ! k) = k"
    by (simp add: list_all_length)
  from a show "encoding_table ! k \<noteq> CHR ''=''" and "\<not> isspace_c (encoding_table ! k)"
    by simp_all
  from d show "decoding_table (encoding_table ! k) = k" .
  from a d show "sextet_of (encoding_table ! k) = k" by (simp add: sextet_of_def)
qed

lemma IsValid_step_alpha:
  assumes "i < length input" and "input ! i = encoding_table ! k" and "k < 64"
  shows "IsValid_loop input i 0 = IsValid_loop input (Suc i) 0"
  using assms alphabet_char [OF assms(3)]
  by (subst IsValid_loop.simps) (simp add: Let_def)

lemma IsValid_step_pad:
  assumes "i < length input" and "input ! i = CHR ''=''" and "p < 2"
    and "\<not> i < length input - 2"
  shows "IsValid_loop input i p = IsValid_loop input (Suc i) (Suc p)"
  using assms by (subst IsValid_loop.simps) (simp add: Let_def)

lemma IsValid_end: "IsValid_loop input (length input) p"
  by (subst IsValid_loop.simps) simp

lemma IsValid_loop_group:
  "IsValid_loop (pre @ enc4 t @ post) (length pre) 0 =
   IsValid_loop (pre @ enc4 t @ post) (Suc (Suc (Suc (Suc (length pre))))) 0"
proof -
  let ?inp = "pre @ enc4 t @ post"
  have 1: "IsValid_loop ?inp (length pre) 0 = IsValid_loop ?inp (Suc (length pre)) 0"
    by (rule IsValid_step_alpha [where k = "drop_bit 18 t AND 0x3F"])
       (simp_all add: enc4_def sextet_index_bound)
  have 2: "IsValid_loop ?inp (Suc (length pre)) 0 = IsValid_loop ?inp (Suc (Suc (length pre))) 0"
    by (rule IsValid_step_alpha [where k = "drop_bit 12 t AND 0x3F"])
       (simp_all add: enc4_def sextet_index_bound nth_append)
  have 3: "IsValid_loop ?inp (Suc (Suc (length pre))) 0 = IsValid_loop ?inp (Suc (Suc (Suc (length pre)))) 0"
    by (rule IsValid_step_alpha [where k = "drop_bit 6 t AND 0x3F"])
       (simp_all add: enc4_def sextet_index_bound nth_append)
  have 4: "IsValid_loop ?inp (Suc (Suc (Suc (length pre)))) 0 =
           IsValid_loop ?inp (Suc (Suc (Suc (Suc (length pre))))) 0"
    by (rule IsValid_step_alpha [where k = "t AND 0x3F"])
       (simp_all add: enc4_def sextet_index_bound nth_append)
  from 1 2 3 4 show ?thesis by (simp only:)
qed

lemma IsValid_loop_padded: "IsValid_loop (pre @ base64_padded s) (length pre) 0"
proof (induction s arbitrary: pre rule: base64_padded.induct)
  case 1
  show ?case using IsValid_end [of pre 0] by simp
next
  case (2 a)
  let ?t = "triple_of (of_char a) 0 0"
  let ?inp = "pre @ take 2 (enc4 ?t) @ ''==''"
  have 1: "IsValid_loop ?inp (length pre) 0 = IsValid_loop ?inp (Suc (length pre)) 0"
    by (rule IsValid_step_alpha [where k = "drop_bit 18 ?t AND 0x3F"])
       (simp_all add: enc4_def sextet_index_bound)
  have 2: "IsValid_loop ?inp (Suc (length pre)) 0 = IsValid_loop ?inp (Suc (Suc (length pre))) 0"
    by (rule IsValid_step_alpha [where k = "drop_bit 12 ?t AND 0x3F"])
       (simp_all add: enc4_def sextet_index_bound nth_append)
  have 3: "IsValid_loop ?inp (Suc (Suc (length pre))) 0 = IsValid_loop ?inp (Suc (Suc (Suc (length pre)))) (Suc 0)"
    by (rule IsValid_step_pad) (simp_all add: enc4_def nth_append)
  have 4: "IsValid_loop ?inp (Suc (Suc (Suc (length pre)))) (Suc 0) =
           IsValid_loop ?inp (Suc (Suc (Suc (Suc (length pre))))) (Suc (Suc 0))"
    by (rule IsValid_step_pad) (simp_all add: enc4_def nth_append)
  have 5: "IsValid_loop ?inp (Suc (Suc (Suc (Suc (length pre))))) (Suc (Suc 0))"
    using IsValid_end [of ?inp "Suc (Suc 0)"] by (simp add: enc4_def)
  from 1 2 3 4 5 show ?case by (simp only: base64_padded.simps)
next
  case (3 a b)
  let ?t = "triple_of (of_char a) (of_char b) 0"
  let ?inp = "pre @ take 3 (enc4 ?t) @ ''=''"
  have 1: "IsValid_loop ?inp (length pre) 0 = IsValid_loop ?inp (Suc (length pre)) 0"
    by (rule IsValid_step_alpha [where k = "drop_bit 18 ?t AND 0x3F"])
       (simp_all add: enc4_def sextet_index_bound)
  have 2: "IsValid_loop ?inp (Suc (length pre)) 0 = IsValid_loop ?inp (Suc (Suc (length pre))) 0"
    by (rule IsValid_step_alpha [where k = "drop_bit 12 ?t AND 0x3F"])
       (simp_all add: enc4_def sextet_index_bound nth_append)
  have 3: "IsValid_loop ?inp (Suc (Suc (length pre))) 0 = IsValid_loop ?inp (Suc (Suc (Suc (length pre)))) 0"
    by (rule IsValid_step_alpha [where k = "drop_bit 6 ?t AND 0x3F"])
       (simp_all add: enc4_def sextet_index_bound nth_append)
  have 4: "IsValid_loop ?inp (Suc (Suc (Suc (length pre)))) 0 =
           IsValid_loop ?inp (Suc (Suc (Suc (Suc (length pre))))) (Suc 0)"
    by (rule IsValid_step_pad) (simp_all add: enc4_def nth_append)
  have 5: "IsValid_loop ?inp (Suc (Suc (Suc (Suc (length pre))))) (Suc 0)"
    using IsValid_end [of ?inp "Suc 0"] by (simp add: enc4_def)
  from 1 2 3 4 5 show ?case by (simp only: base64_padded.simps)
next
  case (4 a b c rest)
  let ?t = "triple_of (of_char a) (of_char b) (of_char c)"
  have l: "length (pre @ enc4 ?t) = Suc (Suc (Suc (Suc (length pre))))" by simp
  from "4.IH" [of "pre @ enc4 ?t"]
  have "IsValid_loop (pre @ enc4 ?t @ base64_padded rest) (Suc (Suc (Suc (Suc (length pre))))) 0"
    unfolding l by simp
  with IsValid_loop_group [of pre ?t "base64_padded rest"] show ?case by simp
qed

lemma IsValid_base64_padded: "IsValid (base64_padded s)"
proof (cases "s = []")
  case True
  then show ?thesis by (simp add: IsValid_def)
next
  case False
  have "length (base64_padded s) mod 4 = 0" by (simp add: length_base64_padded)
  moreover have "IsValid_loop (base64_padded s) 0 0"
    using IsValid_loop_padded [of "[]" s] by simp
  ultimately show ?thesis by (simp add: IsValid_def)
qed

lemma skip_space_none:
  "i < length input \<Longrightarrow> \<not> isspace_c (input ! i) \<Longrightarrow> skip_space input i = i"
  by (subst skip_space.simps) simp

lemma DecodeBytes_loop_group:
  assumes "\<not> isspace_c c1"
  shows "DecodeBytes_loop (pre @ c1 # c2 # c3 # c4 # post) cap (length pre) out =
         DecodeBytes_loop (pre @ c1 # c2 # c3 # c4 # post) cap (Suc (Suc (Suc (Suc (length pre)))))
           (push_back_below cap
             (push_back_below cap
               (push_back_below cap out
                 (char_of (drop_bit 16 (decode_triple c1 c2 c3 c4) AND 0xFF)))
               (char_of (drop_bit 8 (decode_triple c1 c2 c3 c4) AND 0xFF)))
             (char_of (decode_triple c1 c2 c3 c4 AND 0xFF)))"
proof -
  have s: "skip_space (pre @ c1 # c2 # c3 # c4 # post) (length pre) = length pre"
    using assms by (intro skip_space_none) simp_all
  have e: "length pre + 4 = Suc (Suc (Suc (Suc (length pre))))" by simp
  show ?thesis
    by (subst DecodeBytes_loop.simps)
       (simp add: s string_at_def nth_append Let_def decode_triple_def e)
qed

lemma DecodeBytes_loop_end: "DecodeBytes_loop input cap (length input) out = Inr out"
  by (subst DecodeBytes_loop.simps) simp

lemma decode_triple_enc4:
  assumes "t < 2 ^ 24"
  shows "decode_triple (encoding_table ! (drop_bit 18 t AND 0x3F))
           (encoding_table ! (drop_bit 12 t AND 0x3F))
           (encoding_table ! (drop_bit 6 t AND 0x3F))
           (encoding_table ! (t AND 0x3F)) = t"
  using sextets_recombine [OF assms]
  by (simp add: decode_triple_def alphabet_char sextet_index_bound)

lemma decode_triple_pad1:
  assumes "t < 2 ^ 24" and "t AND 0x3F = 0"
  shows "decode_triple (encoding_table ! (drop_bit 18 t AND 0x3F))
           (encoding_table ! (drop_bit 12 t AND 0x3F))
           (encoding_table ! (drop_bit 6 t AND 0x3F))
           (CHR ''='') = t"
  using sextets_recombine [OF assms(1)] assms(2)
  by (simp add: decode_triple_def alphabet_char sextet_index_bound sextet_of_def)

lemma decode_triple_pad2:
  assumes "t < 2 ^ 24" and "t AND 0x3F = 0" and "drop_bit 6 t AND 0x3F = 0"
  shows "decode_triple (encoding_table ! (drop_bit 18 t AND 0x3F))
           (encoding_table ! (drop_bit 12 t AND 0x3F))
           (CHR ''='') (CHR ''='') = t"
  using sextets_recombine [OF assms(1)] assms(2,3)
  by (simp add: decode_triple_def alphabet_char sextet_index_bound sextet_of_def)

lemma of_char_lt_256: "(of_char c :: nat) < 256"
  using of_char_mod_256 [of c, where ?'a = nat] by (metis mod_less_divisor zero_less_numeral)

lemma triple_chars:
  "char_of (drop_bit 16 (triple_of (of_char a) (of_char b) (of_char c)) AND 0xFF) = a"
  "char_of (drop_bit 8 (triple_of (of_char a) (of_char b) (of_char c)) AND 0xFF) = b"
  "char_of (triple_of (of_char a) (of_char b) (of_char c) AND 0xFF) = c"
  by (simp_all add: triple_bytes of_char_lt_256)

lemma zero_byte: "(of_char (CHR 0x00) :: nat) = 0"
  by simp

lemma DecodeBytes_loop_padded:
  "length out + length s = cap \<Longrightarrow>
   DecodeBytes_loop (pre @ base64_padded s) cap (length pre) out = Inr (out @ s)"
proof (induction s arbitrary: pre out rule: base64_padded.induct)
  case 1
  then show ?case using DecodeBytes_loop_end [of pre cap out] by simp
next
  case (2 a)
  let ?t = "triple_of (of_char a) 0 0"
  let ?inp = "pre @ base64_padded [a]"
  have tb: "?t < 2 ^ 24" by (intro triple_of_bound of_char_lt_256) simp_all
  have dt: "decode_triple (encoding_table ! (drop_bit 18 ?t AND 0x3F))
           (encoding_table ! (drop_bit 12 ?t AND 0x3F)) (CHR ''='') (CHR ''='') = ?t"
    by (rule decode_triple_pad2 [OF tb]) (simp_all add: low_sextets_zero)
  have len: "length ?inp = Suc (Suc (Suc (Suc (length pre))))" by (simp add: enc4_def)
  have by1: "char_of (drop_bit 16 ?t AND 0xFF) = a"
    using triple_chars(1) [of a "CHR 0x00" "CHR 0x00"] by simp
  have "DecodeBytes_loop ?inp cap (length pre) out =
        DecodeBytes_loop ?inp cap (Suc (Suc (Suc (Suc (length pre))))) (out @ [a])"
    using 2 DecodeBytes_loop_group
      [of "encoding_table ! (drop_bit 18 ?t AND 0x3F)" pre
          "encoding_table ! (drop_bit 12 ?t AND 0x3F)" "CHR ''=''" "CHR ''=''" "[]" cap out]
    by (simp add: enc4_def alphabet_char sextet_index_bound dt by1 push_back_below_def)
  also have "\<dots> = Inr (out @ [a])"
    using DecodeBytes_loop_end [of ?inp cap "out @ [a]"] unfolding len .
  finally show ?case .
next
  case (3 a b)
  let ?t = "triple_of (of_char a) (of_char b) 0"
  let ?inp = "pre @ base64_padded [a, b]"
  have tb: "?t < 2 ^ 24" by (intro triple_of_bound of_char_lt_256) simp_all
  have dt: "decode_triple (encoding_table ! (drop_bit 18 ?t AND 0x3F))
           (encoding_table ! (drop_bit 12 ?t AND 0x3F))
           (encoding_table ! (drop_bit 6 ?t AND 0x3F)) (CHR ''='') = ?t"
    by (rule decode_triple_pad1 [OF tb]) (simp_all add: low_sextets_zero)
  have len: "length ?inp = Suc (Suc (Suc (Suc (length pre))))" by (simp add: enc4_def)
  have by1: "char_of (drop_bit 16 ?t AND 0xFF) = a" "char_of (drop_bit 8 ?t AND 0xFF) = b"
    using triple_chars(1,2) [of a b "CHR 0x00"] by simp_all
  have "DecodeBytes_loop ?inp cap (length pre) out =
        DecodeBytes_loop ?inp cap (Suc (Suc (Suc (Suc (length pre))))) (out @ [a, b])"
    using 3 DecodeBytes_loop_group
      [of "encoding_table ! (drop_bit 18 ?t AND 0x3F)" pre
          "encoding_table ! (drop_bit 12 ?t AND 0x3F)"
          "encoding_table ! (drop_bit 6 ?t AND 0x3F)" "CHR ''=''" "[]" cap out]
    by (simp add: enc4_def alphabet_char sextet_index_bound dt by1 push_back_below_def)
  also have "\<dots> = Inr (out @ [a, b])"
    using DecodeBytes_loop_end [of ?inp cap "out @ [a, b]"] unfolding len .
  finally show ?case .
next
  case (4 a b c rest)
  let ?t = "triple_of (of_char a) (of_char b) (of_char c)"
  let ?inp = "pre @ base64_padded (a # b # c # rest)"
  have tb: "?t < 2 ^ 24" by (intro triple_of_bound of_char_lt_256)
  have dt: "decode_triple (encoding_table ! (drop_bit 18 ?t AND 0x3F))
           (encoding_table ! (drop_bit 12 ?t AND 0x3F))
           (encoding_table ! (drop_bit 6 ?t AND 0x3F))
           (encoding_table ! (?t AND 0x3F)) = ?t"
    by (rule decode_triple_enc4 [OF tb])
  have l: "length (pre @ enc4 ?t) = Suc (Suc (Suc (Suc (length pre))))" by simp
  have cap': "length (out @ [a, b, c]) + length rest = cap" using "4.prems" by simp
  have "DecodeBytes_loop ?inp cap (length pre) out =
        DecodeBytes_loop ?inp cap (Suc (Suc (Suc (Suc (length pre))))) (out @ [a, b, c])"
    using "4.prems" DecodeBytes_loop_group
      [of "encoding_table ! (drop_bit 18 ?t AND 0x3F)" pre
          "encoding_table ! (drop_bit 12 ?t AND 0x3F)"
          "encoding_table ! (drop_bit 6 ?t AND 0x3F)"
          "encoding_table ! (?t AND 0x3F)" "base64_padded rest" cap out]
    by (simp add: enc4_def alphabet_char sextet_index_bound dt triple_chars push_back_below_def)
  also have "\<dots> = Inr ((out @ [a, b, c]) @ rest)"
    using "4.IH" [OF cap', of "pre @ enc4 ?t"] unfolding l by simp
  finally show ?case by simp
qed

lemma base64_padded_nonempty: "s \<noteq> [] \<Longrightarrow> 4 \<le> length (base64_padded s)"
  by (cases s) (simp_all add: length_base64_padded)

lemma padding_chars:
  "s \<noteq> [] \<Longrightarrow>
   (base64_padded s ! (length (base64_padded s) - 1) = CHR ''='' \<longleftrightarrow> length s mod 3 \<noteq> 0)
   \<and> (base64_padded s ! (length (base64_padded s) - 2) = CHR ''='' \<longleftrightarrow> length s mod 3 = 1)"
proof (induction s rule: base64_padded.induct)
  case 1
  then show ?case by simp
next
  case (2 a)
  show ?case by (simp add: enc4_def)
next
  case (3 a b)
  show ?case by (simp add: enc4_def alphabet_char sextet_index_bound)
next
  case (4 a b c rest)
  let ?g = "enc4 (triple_of (of_char a) (of_char b) (of_char c))"
  show ?case
  proof (cases "rest = []")
    case True
    then show ?thesis by (simp add: enc4_def alphabet_char sextet_index_bound)
  next
    case False
    from base64_padded_nonempty [OF False] have l: "4 \<le> length (base64_padded rest)" .
    have n1: "(?g @ base64_padded rest) ! (length (?g @ base64_padded rest) - 1) =
              base64_padded rest ! (length (base64_padded rest) - 1)"
      using l by (auto simp: nth_append)
    have n2: "(?g @ base64_padded rest) ! (length (?g @ base64_padded rest) - 2) =
              base64_padded rest ! (length (base64_padded rest) - 2)"
      using l by (auto simp: nth_append)
    have m: "length (a # b # c # rest) mod 3 = length rest mod 3" by simp
    show ?thesis
      using "4.IH" [OF False] unfolding base64_padded.simps n1 n2 m .
  qed
qed

lemma capacity_eq:
  fixes n :: nat
  shows "n mod 3 = 0 \<Longrightarrow> (4 * ((n + 2) div 3)) div 4 * 3 = n"
    and "n mod 3 = 1 \<Longrightarrow> (4 * ((n + 2) div 3)) div 4 * 3 = n + 2"
    and "n mod 3 = 2 \<Longrightarrow> (4 * ((n + 2) div 3)) div 4 * 3 = n + 1"
proof -
  define q where "q = n div 3"
  have n: "n = 3 * q + n mod 3" by (simp add: q_def)
  have d0: "(3 * q + 2) div 3 = q" by simp
  have d1: "(3 * q + 1 + 2) div 3 = q + 1" by simp
  have d2: "(3 * q + 2 + 2) div 3 = q + 1" by simp
  show "n mod 3 = 0 \<Longrightarrow> (4 * ((n + 2) div 3)) div 4 * 3 = n"
  proof -
    assume "n mod 3 = 0"
    with n have "n = 3 * q" by simp
    then have "(n + 2) div 3 = q" using d0 by simp
    then show ?thesis using \<open>n = 3 * q\<close> by simp
  qed
  show "n mod 3 = 1 \<Longrightarrow> (4 * ((n + 2) div 3)) div 4 * 3 = n + 2"
  proof -
    assume "n mod 3 = 1"
    with n have "n = 3 * q + 1" by simp
    then have "(n + 2) div 3 = q + 1" using d1 by simp
    then show ?thesis using \<open>n = 3 * q + 1\<close> by simp
  qed
  show "n mod 3 = 2 \<Longrightarrow> (4 * ((n + 2) div 3)) div 4 * 3 = n + 1"
  proof -
    assume "n mod 3 = 2"
    with n have "n = 3 * q + 2" by simp
    then have "(n + 2) div 3 = q + 1" using d2 by simp
    then show ?thesis using \<open>n = 3 * q + 2\<close> by simp
  qed
qed

lemma DecodeBytes_base64_padded: "DecodeBytes (base64_padded s) = Inr s"
proof (cases "s = []")
  case True
  then show ?thesis
    using DecodeBytes_loop_end [of "[]" 0 "[]"] by (simp add: DecodeBytes_def IsValid_def)
next
  case False
  let ?inp = "base64_padded s"
  from base64_padded_nonempty [OF False] have l: "4 \<le> length ?inp" .
  then have ne: "?inp \<noteq> []" "length ?inp > 1" by auto
  note pc = padding_chars [OF False]
  have dl: "DecodeBytes_loop ?inp (length s) 0 [] = Inr s"
    using DecodeBytes_loop_padded [of "[]" s "length s" "[]"] by simp
  consider (z) "length s mod 3 = 0" | (o) "length s mod 3 = 1" | (t) "length s mod 3 = 2"
    by linarith
  then show ?thesis
  proof cases
    case z
    with pc ne dl capacity_eq(1) [OF z] show ?thesis
      by (simp add: DecodeBytes_def IsValid_base64_padded length_base64_padded)
  next
    case o
    with pc ne dl capacity_eq(2) [OF o] show ?thesis
      by (simp add: DecodeBytes_def IsValid_base64_padded length_base64_padded)
  next
    case t
    with pc ne dl capacity_eq(3) [OF t] show ?thesis
      by (simp add: DecodeBytes_def IsValid_base64_padded length_base64_padded)
  qed
qed

lemma enc4_alphabet: "set (enc4 t) \<subseteq> set encoding_table"
  by (simp add: enc4_def sextet_index_bound length_encoding_table)

lemma base64_padded_alphabet:
  "set (base64_padded s) \<subseteq> set encoding_table \<union> {CHR ''=''}"
proof (induction s rule: base64_padded.induct)
  case 1
  show ?case by simp
next
  case (2 a)
  have "set (take 2 (enc4 (triple_of (of_char a) 0 0))) \<subseteq> set encoding_table"
    by (rule subset_trans [OF set_take_subset enc4_alphabet])
  then show ?case by auto
next
  case (3 a b)
  have "set (take 3 (enc4 (triple_of (of_char a) (of_char b) 0))) \<subseteq> set encoding_table"
    by (rule subset_trans [OF set_take_subset enc4_alphabet])
  then show ?case by auto
next
  case (4 a b c rest)
  with enc4_alphabet [of "triple_of (of_char a) (of_char b) (of_char c)"] show ?case by auto
qed

text \<open>
  Claim C9. Decoding the encoding of a byte string gives the byte string back. The
  encoding has \<open>4 * ceil (|s| / 3)\<close> characters, all from the alphabet or \<open>=\<close>, and it is
  the padded Base64 encoding \<open>base64_padded\<close>.
\<close>

theorem Base64_roundtrip:
  "Decode (Encode s) = Inr s
   \<and> length (Encode s) = 4 * ((length s + 2) div 3)
   \<and> set (Encode s) \<subseteq> set encoding_table \<union> {CHR ''=''}
   \<and> Encode s = base64_padded s"
  using base64_padded_alphabet [of s]
  by (simp add: Decode_def Encode_eq_base64_padded DecodeBytes_base64_padded
      length_base64_padded)

end
